theory Spec2Isabelle
  imports Complex_Main "HOL-Library.Sublist"
begin

section \<open>Data model of \<open>scripts/trim-low-abund.py\<close>\<close>

text \<open>
  A sequencing record as \<open>screed\<close> hands it to the script: a name, a sequence and an
  optional quality string (\<open>hasattr(read, 'quality')\<close> is \<open>quality \<noteq> None\<close>).
  \<open>len(read)\<close> of a screed record is the length of its sequence.
\<close>

record read =
  name :: string
  sequence :: string
  quality :: "string option"

definition len_read :: "read \<Rightarrow> nat" where
  "len_read rd = length (sequence rd)"

text \<open>\<open>trim_record(read, trim_at)\<close>: a new record holding the prefixes \<open>[:trim_at]\<close>.\<close>

definition trim_record :: "read \<Rightarrow> nat \<Rightarrow> read" where
  "trim_record rd trim_at =
     \<lparr>name = name rd,
      sequence = take trim_at (sequence rd),
      quality = map_option (take trim_at) (quality rd)\<rparr>"

text \<open>
  The counting table (\<open>graph\<close>) is an external collaborator. The script uses four of its
  operations; they are taken as parameters. \<open>ksize\<close> is fixed for one table,
  \<open>get_median_count\<close> (its first component) and \<open>trim_on_abundance\<close> (its second
  component) only query the table, \<open>consume\<close> returns the updated table.
\<close>

record 'g graph_ops =
  ksize :: nat
  get_median_count :: "'g \<Rightarrow> string \<Rightarrow> nat"
  consume :: "'g \<Rightarrow> string \<Rightarrow> 'g"
  trim_on_abundance :: "'g \<Rightarrow> string \<Rightarrow> int \<Rightarrow> nat"

text \<open>The fields of class \<open>Trimmer\<close>, as \<open>__init__\<close> sets them.\<close>

record 'g trimmer =
  graph :: 'g
  do_trim_low_abund :: bool
  cutoff :: int
  normalize_limit :: int
  n_reads :: nat
  n_bp :: nat
  trimmed_reads :: nat
  n_saved :: nat
  n_skipped :: nat
  bp_skipped :: nat

definition Trimmer :: "'g \<Rightarrow> bool \<Rightarrow> int \<Rightarrow> int \<Rightarrow> 'g trimmer" where
  "Trimmer g do_trim c nl =
     \<lparr>graph = g, do_trim_low_abund = do_trim, cutoff = c, normalize_limit = nl,
      n_reads = 0, n_bp = 0, trimmed_reads = 0, n_saved = 0, n_skipped = 0, bp_skipped = 0\<rparr>"

text \<open>
  One element of the paired reader's stream, \<open>(n, is_pair, read1, read2)\<close>: the reads
  are \<open>(read1, read2)\<close> for a pair and \<open>(read1,)\<close> otherwise.
\<close>

datatype unit_t = Single read | Paired read read

fun reads_of :: "unit_t \<Rightarrow> read list" where
  "reads_of (Single r1) = [r1]"
| "reads_of (Paired r1 r2) = [r1, r2]"

section \<open>\<open>Trimmer.__call__\<close>\<close>

text \<open>\<open>read.sequence.replace('N', 'A')\<close>\<close>

definition clean :: "string \<Rightarrow> string" where
  "clean s = map (\<lambda>c. if c = CHR ''N'' then CHR ''A'' else c) s"

text \<open>The first loop of the body: build \<open>examine\<close>, count the reads and their bases.\<close>

fun examine_reads :: "'g trimmer \<Rightarrow> read list \<Rightarrow> 'g trimmer \<times> string list" where
  "examine_reads t [] = (t, [])"
| "examine_reads t (rd # rest) =
     (let r = clean (sequence rd);
          t' = t\<lparr>n_reads := n_reads t + 1, n_bp := n_bp t + length r\<rparr>;
          (t'', ex) = examine_reads t' rest
      in (t'', r # ex))"

text \<open>The second loop: stop with \<open>True\<close> at the first sequence whose median is below the limit.\<close>

fun is_low_coverage :: "'g graph_ops \<Rightarrow> 'g \<Rightarrow> int \<Rightarrow> string list \<Rightarrow> bool" where
  "is_low_coverage ops g nl [] = False"
| "is_low_coverage ops g nl (r # rest) =
     (if int (get_median_count ops g r) < nl then True else is_low_coverage ops g nl rest)"

text \<open>
  First branch: \<open>consume\<close> each cleaned sequence, write the read to the saver, count it.
  The saver is the list of records written to it so far.
\<close>

fun save_reads :: "'g graph_ops \<Rightarrow> 'g trimmer \<Rightarrow> read list \<Rightarrow> (read \<times> string) list
    \<Rightarrow> 'g trimmer \<times> read list" where
  "save_reads ops t saver [] = (t, saver)"
| "save_reads ops t saver ((rd, seq) # rest) =
     save_reads ops
       (t\<lparr>graph := consume ops (graph t) seq, n_saved := n_saved t + 1\<rparr>)
       (saver @ [rd]) rest"

text \<open>Second branch: count the read as skipped and yield it as it is.\<close>

fun skip_reads :: "'g trimmer \<Rightarrow> read list \<Rightarrow> 'g trimmer \<times> read list" where
  "skip_reads t [] = (t, [])"
| "skip_reads t (rd # rest) =
     (let t' = t\<lparr>n_skipped := n_skipped t + 1, bp_skipped := bp_skipped t + len_read rd\<rparr>;
          (t'', ys) = skip_reads t' rest
      in (t'', rd # ys))"

text \<open>Third branch: trim at the position the table gives when it is at least \<open>K\<close>.\<close>

fun trim_reads :: "'g graph_ops \<Rightarrow> nat \<Rightarrow> 'g trimmer \<Rightarrow> (read \<times> string) list
    \<Rightarrow> 'g trimmer \<times> read list" where
  "trim_reads ops K t [] = (t, [])"
| "trim_reads ops K t ((rd, seq) # rest) =
     (let trim_at = trim_on_abundance ops (graph t) seq (cutoff t) in
      if K \<le> trim_at then
        (let t' = (if trim_at \<noteq> length seq
                   then t\<lparr>trimmed_reads := trimmed_reads t + 1\<rparr> else t);
             (t'', ys) = trim_reads ops K t' rest
         in (t'', trim_record rd trim_at # ys))
      else
        (let (t'', ys) = trim_reads ops K t rest in (t'', rd # ys)))"

text \<open>
  The body of \<open>for n, is_pair, read1, read2 in reader\<close> for one element. The saver is
  \<open>None\<close> or an open file, which is true in a condition. The result is the trimmer, the
  saver and the reads this element yields.
\<close>

definition process_unit :: "'g graph_ops \<Rightarrow> nat \<Rightarrow> 'g trimmer \<Rightarrow> read list option \<Rightarrow> unit_t
    \<Rightarrow> 'g trimmer \<times> read list option \<times> read list" where
  "process_unit ops K t saver u =
     (let reads = reads_of u;
          (t1, examine) = examine_reads t reads;
          low = is_low_coverage ops (graph t1) (normalize_limit t1) examine
      in case (low, saver) of
           (True, Some sv) \<Rightarrow>
             (let (t2, sv') = save_reads ops t1 sv (zip reads examine) in (t2, Some sv', []))
         | _ \<Rightarrow>
             if low \<and> \<not> do_trim_low_abund t1 then
               (let (t2, ys) = skip_reads t1 reads in (t2, saver, ys))
             else
               (let (t2, ys) = trim_reads ops K t1 (zip reads examine) in (t2, saver, ys)))"

fun process :: "'g graph_ops \<Rightarrow> nat \<Rightarrow> 'g trimmer \<Rightarrow> read list option \<Rightarrow> unit_t list
    \<Rightarrow> 'g trimmer \<times> read list option \<times> read list" where
  "process ops K t saver [] = (t, saver, [])"
| "process ops K t saver (u # us) =
     (let (t1, saver1, ys1) = process_unit ops K t saver u;
          (t2, saver2, ys2) = process ops K t1 saver1 us
      in (t2, saver2, ys1 @ ys2))"

text \<open>
  \<open>trimmer(reader, saver)\<close>, run to the end of the reader: \<open>K = graph.ksize()\<close> is read
  once, then every element is processed in order. The consumer of the generator only
  writes the yielded reads and counts them, so the yielded reads are returned as a list.
\<close>

definition trimmer_call :: "'g graph_ops \<Rightarrow> 'g trimmer \<Rightarrow> unit_t list \<Rightarrow> read list option
    \<Rightarrow> 'g trimmer \<times> read list option \<times> read list" where
  "trimmer_call ops t reader saver = process ops (ksize ops) t saver reader"

section \<open>The paired reader\<close>

text \<open>
  Modelled from the spec: \<open>khmer.utils.broken_paired_reader\<close> is not among the sources.
  The spec's contract for it: given a raw record stream, a minimum-length filter and a
  force-single flag, it produces a file-order-preserving sequence of units; it pairs
  adjacent records that share a base identifier when force-single is false and both meet
  the minimum length, otherwise it yields singles. Whether two records share a base
  identifier is the parameter \<open>is_pair\<close>.
\<close>

fun pair_up :: "(read \<Rightarrow> read \<Rightarrow> bool) \<Rightarrow> bool \<Rightarrow> read list \<Rightarrow> unit_t list" where
  "pair_up is_pair force_single [] = []"
| "pair_up is_pair force_single [a] = [Single a]"
| "pair_up is_pair force_single (a # b # rest) =
     (if \<not> force_single \<and> is_pair a b
      then Paired a b # pair_up is_pair force_single rest
      else Single a # pair_up is_pair force_single (b # rest))"

definition broken_paired_reader :: "(read \<Rightarrow> read \<Rightarrow> bool) \<Rightarrow> nat \<Rightarrow> bool \<Rightarrow> read list
    \<Rightarrow> unit_t list" where
  "broken_paired_reader is_pair min_length force_single records =
     pair_up is_pair force_single (filter (\<lambda>rd. min_length \<le> length (sequence rd)) records)"

section \<open>\<open>main\<close>\<close>

text \<open>
  The parsed command line, with the options \<open>main\<close> itself reads. \<open>out\<close> is the file name
  given to \<open>-o\<close>, if any.
\<close>

record args =
  input_filenames :: "string list"
  args_cutoff :: int
  normalize_to :: int
  out :: "string option"
  variable_coverage :: bool
  ignore_pairs :: bool

datatype error = SystemExit nat | AssertionError | IOError | ZeroDivisionError

text \<open>An output handle \<open>trimfp\<close>: \<open>args.out\<close>, or the file \<open><basename>.abundtrim\<close>.\<close>

datatype sink = Args_out | Trim_file string

text \<open>What the run does to the file system, in the order it does it.\<close>

datatype fs_event =
    Create_output string
  | Check_input string
  | Create_tempdir
  | Open_input string
  | Create_spill string
  | Open_spill string
  | Remove_spill string
  | Remove_tempdir

text \<open>\<open>os.path.basename\<close>: what follows the last slash.\<close>

definition basename :: "string \<Rightarrow> string" where
  "basename p = rev (takeWhile (\<lambda>c. c \<noteq> CHR ''/'') (rev p))"

text \<open>
  The local variables of \<open>main\<close> that live across the two passes. \<open>tempdir\<close> is the content
  of the fresh temporary directory: the records of each \<open>.pass2\<close> file in it, by file
  name. \<open>written\<close> lists the calls \<open>write_record(read, trimfp)\<close> in order.
\<close>

record 'g run =
  trimmer :: "'g trimmer"
  written_bp :: nat
  written_reads :: nat
  save_pass2_total :: nat
  pass2list :: "(string \<times> string \<times> sink) list"
  tempdir :: "string \<rightharpoonup> read list"
  written :: "(sink \<times> read) list"
  events :: "fs_event list"

text \<open>
  \<open>get_parser\<close> gives \<open>--out\<close> the type \<open>argparse.FileType('w')\<close>: \<open>parse_args\<close> opens the
  named file for writing while it parses (\<open>-\<close> stands for the standard output).
\<close>

definition parse_args_events :: "args \<Rightarrow> fs_event list" where
  "parse_args_events a =
     (case out a of
        None \<Rightarrow> []
      | Some f \<Rightarrow> if f = ''-'' then [] else [Create_output f])"

text \<open>The loop \<open>for read in trimmer(paired_iter, pass2fp)\<close> of the first pass.\<close>

fun write_pass1 :: "sink \<Rightarrow> 'g run \<Rightarrow> read list \<Rightarrow> 'g run" where
  "write_pass1 trimfp st [] = st"
| "write_pass1 trimfp st (rd # rest) =
     write_pass1 trimfp
       (st\<lparr>written := written st @ [(trimfp, rd)],
           written_bp := written_bp st + len_read rd,
           written_reads := written_reads st + 1\<rparr>) rest"

text \<open>The loop \<open>for read in trimmer(paired_iter, None)\<close> of the second pass.\<close>

fun write_pass2 :: "sink \<Rightarrow> 'g run \<Rightarrow> read list \<Rightarrow> 'g run" where
  "write_pass2 trimfp st [] = st"
| "write_pass2 trimfp st (rd # rest) =
     write_pass2 trimfp
       (st\<lparr>written := written st @ [(trimfp, rd)],
           written_reads := written_reads st + 1\<rparr>) rest"

text \<open>
  The body of the first pass for one input file. \<open>fs\<close> gives the records \<open>screed\<close> parses
  from an input file; input files are taken to exist and to stay as they are.
\<close>

definition pass1_file :: "'g graph_ops \<Rightarrow> (read \<Rightarrow> read \<Rightarrow> bool) \<Rightarrow> (string \<Rightarrow> read list)
    \<Rightarrow> args \<Rightarrow> nat \<Rightarrow> 'g run \<Rightarrow> string \<Rightarrow> 'g run" where
  "pass1_file ops is_pair fs a K st filename =
     (let pass2filename = basename filename @ ''.pass2'';
          trimfp = (case out a of
                      None \<Rightarrow> Trim_file (basename filename @ ''.abundtrim'')
                    | Some f \<Rightarrow> Args_out);
          st1 = st\<lparr>pass2list := pass2list st @ [(filename, pass2filename, trimfp)],
                   tempdir := (tempdir st)(pass2filename \<mapsto> []),
                   events := events st
                     @ (case out a of
                          None \<Rightarrow> [Create_output (basename filename @ ''.abundtrim'')]
                        | Some f \<Rightarrow> [])
                     @ [Open_input filename, Create_spill pass2filename]\<rparr>;
          paired_iter = broken_paired_reader is_pair K (ignore_pairs a) (fs filename);
          (t, pass2fp, ys) = trimmer_call ops (trimmer st1) paired_iter (Some []);
          st2 = write_pass1 trimfp (st1\<lparr>trimmer := t\<rparr>) ys;
          st3 = st2\<lparr>tempdir := (tempdir st2)(pass2filename := pass2fp)\<rparr>;
          save_pass2 = n_saved (trimmer st3)
      in st3\<lparr>save_pass2_total := save_pass2_total st3 + save_pass2\<rparr>)"

text \<open>
  The second pass over \<open>pass2list\<close>. \<open>screed.open\<close> fails on a file that is not there;
  \<open>os.unlink\<close> removes the file after its records are processed. The result is the
  error that stopped the loop, if any, and the state reached.
\<close>

fun pass2_loop :: "'g graph_ops \<Rightarrow> (read \<Rightarrow> read \<Rightarrow> bool) \<Rightarrow> nat \<Rightarrow> 'g run
    \<Rightarrow> (string \<times> string \<times> sink) list \<Rightarrow> error option \<times> 'g run" where
  "pass2_loop ops is_pair K st [] = (None, st)"
| "pass2_loop ops is_pair K st ((filename, pass2filename, trimfp) # rest) =
     (case tempdir st pass2filename of
        None \<Rightarrow> (Some IOError, st)
      | Some records \<Rightarrow>
          (let st1 = st\<lparr>events := events st @ [Open_spill pass2filename]\<rparr>;
               paired_iter = broken_paired_reader is_pair K True records;
               (t, saver, ys) = trimmer_call ops (trimmer st1) paired_iter None;
               st2 = write_pass2 trimfp (st1\<lparr>trimmer := t\<rparr>) ys;
               st3 = st2\<lparr>tempdir := (tempdir st2)(pass2filename := None),
                        events := events st2 @ [Remove_spill pass2filename]\<rparr>
           in pass2_loop ops is_pair K st3 rest))"

text \<open>The state when the first pass begins: the table \<open>ct\<close>, a new \<open>Trimmer\<close>, an empty directory.\<close>

definition start_run :: "'g \<Rightarrow> args \<Rightarrow> 'g run" where
  "start_run ct a =
     \<lparr>trimmer = Trimmer ct (\<not> variable_coverage a) (args_cutoff a) (normalize_to a),
      written_bp = 0, written_reads = 0, save_pass2_total = 0, pass2list = [],
      tempdir = Map.empty, written = [],
      events = parse_args_events a @ map Check_input (input_filenames a) @ [Create_tempdir]\<rparr>"

definition first_pass :: "'g graph_ops \<Rightarrow> (read \<Rightarrow> read \<Rightarrow> bool) \<Rightarrow> (string \<Rightarrow> read list)
    \<Rightarrow> 'g \<Rightarrow> args \<Rightarrow> 'g run" where
  "first_pass ops is_pair fs ct a =
     foldl (pass1_file ops is_pair fs a (ksize ops)) (start_run ct a) (input_filenames a)"

definition second_pass :: "'g graph_ops \<Rightarrow> (read \<Rightarrow> read \<Rightarrow> bool) \<Rightarrow> 'g run
    \<Rightarrow> error option \<times> 'g run" where
  "second_pass ops is_pair st =
     (if n_skipped (trimmer st) \<noteq> 0 then (Some AssertionError, st)
      else if bp_skipped (trimmer st) \<noteq> 0 then (Some AssertionError, st)
      else pass2_loop ops is_pair (ksize ops) st (pass2list st))"

text \<open>
  \<open>main\<close>: the file-system events of the run, and either the error that ends it or the
  state its report is printed from. \<open>nargs='+'\<close> makes the parser exit with status 2 on
  an empty list of input files. The report divides by \<open>n_reads\<close> and by \<open>n_bp\<close>.
  The checks of free disk space before the first pass, and the estimate of the false
  positive rate and the saving of the table after the report, belong to the library and
  are taken to pass.
\<close>

definition main :: "'g graph_ops \<Rightarrow> (read \<Rightarrow> read \<Rightarrow> bool) \<Rightarrow> (string \<Rightarrow> read list)
    \<Rightarrow> 'g \<Rightarrow> args \<Rightarrow> fs_event list \<times> (error + 'g run)" where
  "main ops is_pair fs ct a =
     (if input_filenames a = [] then (parse_args_events a, Inl (SystemExit 2))
      else if card (set (input_filenames a)) \<noteq> length (input_filenames a)
      then (parse_args_events a, Inl (SystemExit 1))
      else
        (case second_pass ops is_pair (first_pass ops is_pair fs ct a) of
           (Some e, st2) \<Rightarrow> (events st2, Inl e)
         | (None, st2) \<Rightarrow>
             (let st3 = st2\<lparr>events := events st2 @ [Remove_tempdir]\<rparr> in
              if n_reads (trimmer st3) = 0 then (events st3, Inl ZeroDivisionError)
              else if n_bp (trimmer st3) = 0 then (events st3, Inl ZeroDivisionError)
              else (events st3, Inr st3))))"

text \<open>
  The last figure of the report, \<open>(1 - (written_bp / float(n_bp))) * 100.0\<close>, with the
  arithmetic over the rationals in place of floating point.
\<close>

definition percent_bases_removed :: "'g run \<Rightarrow> rat" where
  "percent_bases_removed st =
     (1 - of_nat (written_bp st) / of_nat (n_bp (trimmer st))) * 100"

section \<open>An exact counting table\<close>

text \<open>
  Modelled from the spec: the counting table itself is not among the sources. This is
  the deterministic exact-count stand-in the spec recommends, following its contract:
  \<open>medianAbundance\<close> is the median count over all K-length windows, \<open>consume\<close> counts
  every K-length window once more, \<open>trimAtAbundance\<close> is the first window-start position
  whose abundance is at most the cutoff, else the length of the sequence. The table is
  the list of the windows consumed so far.
\<close>

definition kmers :: "nat \<Rightarrow> string \<Rightarrow> string list" where
  "kmers K s = map (\<lambda>i. take K (drop i s)) [0 ..< Suc (length s) - K]"

definition exact_median :: "nat \<Rightarrow> string list \<Rightarrow> string \<Rightarrow> nat" where
  "exact_median K g s =
     (let counts = sort (map (count_list g) (kmers K s))
      in if counts = [] then 0 else counts ! (length counts div 2))"

definition exact_consume :: "nat \<Rightarrow> string list \<Rightarrow> string \<Rightarrow> string list" where
  "exact_consume K g s = g @ kmers K s"

definition exact_trim :: "nat \<Rightarrow> string list \<Rightarrow> string \<Rightarrow> int \<Rightarrow> nat" where
  "exact_trim K g s c =
     (case filter (\<lambda>i. int (count_list g (take K (drop i s))) \<le> c) [0 ..< Suc (length s) - K] of
        [] \<Rightarrow> length s
      | i # rest \<Rightarrow> i)"

definition exact_table :: "nat \<Rightarrow> string list graph_ops" where
  "exact_table K =
     \<lparr>ksize = K, get_median_count = exact_median K, consume = exact_consume K,
      trim_on_abundance = exact_trim K\<rparr>"

text \<open>
  Two abbreviations for the statements below: a unit is low-coverage when the median
  count of one of its cleaned sequences is below the limit; \<open>seen\<close> is the trimmer after
  the reads of a unit have been counted.
\<close>

abbreviation low_cov :: "'g graph_ops \<Rightarrow> 'g trimmer \<Rightarrow> unit_t \<Rightarrow> bool" where
  "low_cov ops t u \<equiv>
     (\<exists>rd \<in> set (reads_of u).
        int (get_median_count ops (graph t) (clean (sequence rd))) < normalize_limit t)"

abbreviation seen :: "'g trimmer \<Rightarrow> read list \<Rightarrow> 'g trimmer" where
  "seen t rs \<equiv>
     t\<lparr>n_reads := n_reads t + length rs, n_bp := n_bp t + sum_list (map len_read rs)\<rparr>"

text \<open>Concrete inputs for evaluating the definitions.\<close>

definition no_pairs :: "read \<Rightarrow> read \<Rightarrow> bool" where
  "no_pairs a b = False"

definition read_acgt :: read where
  "read_acgt = \<lparr>name = ''r1'', sequence = ''ACGT'', quality = None\<rparr>"

definition read_a :: read where
  "read_a = \<lparr>name = ''r1'', sequence = ''AAAACCCCAAAACCCC'', quality = None\<rparr>"

definition read_acgttt :: read where
  "read_acgttt = \<lparr>name = ''r2'', sequence = ''ACGTTT'', quality = Some ''IIIIII''\<rparr>"

definition seen_thrice :: "string list" where
  "seen_thrice = [''AC'', ''CG'', ''GT'', ''AC'', ''CG'', ''GT'', ''AC'', ''CG'', ''GT'']"

definition one_read_file :: "string \<Rightarrow> read list" where
  "one_read_file f = [read_a]"

definition args_a :: args where
  "args_a = \<lparr>input_filenames = [''a.fa''], args_cutoff = 2, normalize_to = 20, out = None,
     variable_coverage = False, ignore_pairs = False\<rparr>"

definition args_same_base :: args where
  "args_same_base = \<lparr>input_filenames = [''a.fa'', ''d/a.fa''], args_cutoff = 2,
     normalize_to = 20, out = None, variable_coverage = False, ignore_pairs = False\<rparr>"

definition args_dup :: args where
  "args_dup = \<lparr>input_filenames = [''a.fa'', ''a.fa''], args_cutoff = 2, normalize_to = 20,
     out = None, variable_coverage = False, ignore_pairs = False\<rparr>"

definition args_dup_out :: args where
  "args_dup_out = \<lparr>input_filenames = [''a.fa'', ''a.fa''], args_cutoff = 2, normalize_to = 20,
     out = Some ''trimmed.fa'', variable_coverage = False, ignore_pairs = False\<rparr>"

section \<open>Names for the parts of a run\<close>

text \<open>
  The statements about \<open>main\<close> speak of the parts of its loops: the reads of a stream of
  units, the name of a spill file and the output handle of an input file, the call of the
  trimmer for one input file with what it spills and yields, the state after a prefix of
  the input files, and one iteration of the second pass. Each is the expression of the
  definitions above, under a name.
\<close>

abbreviation all_reads :: "unit_t list \<Rightarrow> read list" where
  "all_reads units \<equiv> concat (map reads_of units)"

definition spill_name :: "string \<Rightarrow> string" where
  "spill_name f = basename f @ ''.pass2''"

abbreviation trim_sink :: "args \<Rightarrow> string \<Rightarrow> sink" where
  "trim_sink a f \<equiv>
     (case out a of None \<Rightarrow> Trim_file (basename f @ ''.abundtrim'') | Some x \<Rightarrow> Args_out)"

definition pass1_call :: "'g graph_ops \<Rightarrow> (read \<Rightarrow> read \<Rightarrow> bool) \<Rightarrow> (string \<Rightarrow> read list)
    \<Rightarrow> args \<Rightarrow> 'g run \<Rightarrow> string \<Rightarrow> 'g trimmer \<times> read list option \<times> read list" where
  "pass1_call ops is_pair fs a st f =
     trimmer_call ops (trimmer st)
       (broken_paired_reader is_pair (ksize ops) (ignore_pairs a) (fs f)) (Some [])"

definition pass1_spilled :: "'g graph_ops \<Rightarrow> (read \<Rightarrow> read \<Rightarrow> bool) \<Rightarrow> (string \<Rightarrow> read list)
    \<Rightarrow> args \<Rightarrow> 'g run \<Rightarrow> string \<Rightarrow> read list" where
  "pass1_spilled ops is_pair fs a st f =
     (case fst (snd (pass1_call ops is_pair fs a st f)) of None \<Rightarrow> [] | Some sv \<Rightarrow> sv)"

definition pass1_yielded :: "'g graph_ops \<Rightarrow> (read \<Rightarrow> read \<Rightarrow> bool) \<Rightarrow> (string \<Rightarrow> read list)
    \<Rightarrow> args \<Rightarrow> 'g run \<Rightarrow> string \<Rightarrow> read list" where
  "pass1_yielded ops is_pair fs a st f = snd (snd (pass1_call ops is_pair fs a st f))"

definition pass1_files :: "'g graph_ops \<Rightarrow> (read \<Rightarrow> read \<Rightarrow> bool) \<Rightarrow> (string \<Rightarrow> read list)
    \<Rightarrow> 'g \<Rightarrow> args \<Rightarrow> string list \<Rightarrow> 'g run" where
  "pass1_files ops is_pair fs ct a files =
     foldl (pass1_file ops is_pair fs a (ksize ops)) (start_run ct a) files"

definition pass2_call :: "'g graph_ops \<Rightarrow> (read \<Rightarrow> read \<Rightarrow> bool) \<Rightarrow> 'g run \<Rightarrow> read list
    \<Rightarrow> 'g trimmer \<times> read list option \<times> read list" where
  "pass2_call ops is_pair st records =
     trimmer_call ops (trimmer st) (broken_paired_reader is_pair (ksize ops) True records) None"

definition pass2_entry :: "'g graph_ops \<Rightarrow> (read \<Rightarrow> read \<Rightarrow> bool) \<Rightarrow> 'g run \<Rightarrow> string \<Rightarrow> sink
    \<Rightarrow> read list \<Rightarrow> 'g run" where
  "pass2_entry ops is_pair st p trimfp records =
     (let st1 = st\<lparr>events := events st @ [Open_spill p]\<rparr>;
          (t, saver, ys) = pass2_call ops is_pair st records;
          st2 = write_pass2 trimfp (st1\<lparr>trimmer := t\<rparr>) ys
      in st2\<lparr>tempdir := (tempdir st2)(p := None),
             events := events st2 @ [Remove_spill p]\<rparr>)"


section \<open>The loops of \<open>Trimmer.__call__\<close> in closed form\<close>

lemma length_clean: "length (clean s) = length s"
  by (simp add: clean_def)

lemma length_reads_of: "0 < length (reads_of u)"
  by (cases u) simp_all

lemma examine_reads_eq:
  "examine_reads t rs = (seen t rs, map (\<lambda>rd. clean (sequence rd)) rs)"
  by (induction rs arbitrary: t) (simp_all add: length_clean len_read_def)

lemma is_low_coverage_iff:
  "is_low_coverage ops g nl ex \<longleftrightarrow> (\<exists>r \<in> set ex. int (get_median_count ops g r) < nl)"
  by (induction ex) simp_all

lemma save_reads_eq:
  "save_reads ops t sv ps =
     (t\<lparr>graph := foldl (consume ops) (graph t) (map snd ps),
        n_saved := n_saved t + length ps\<rparr>,
      sv @ map fst ps)"
  by (induction ps arbitrary: t sv) auto

lemma skip_reads_eq:
  "skip_reads t rs =
     (t\<lparr>n_skipped := n_skipped t + length rs,
        bp_skipped := bp_skipped t + sum_list (map len_read rs)\<rparr>,
      rs)"
  by (induction rs arbitrary: t) simp_all

lemma trim_reads_fields:
  "trim_reads ops K t ps = (t', ys) \<Longrightarrow>
     graph t' = graph t \<and> do_trim_low_abund t' = do_trim_low_abund t \<and> cutoff t' = cutoff t
     \<and> normalize_limit t' = normalize_limit t \<and> n_reads t' = n_reads t \<and> n_bp t' = n_bp t
     \<and> n_saved t' = n_saved t \<and> n_skipped t' = n_skipped t \<and> bp_skipped t' = bp_skipped t"
proof (induction ps arbitrary: t t' ys)
  case Nil
  then show ?case by simp
next
  case (Cons p ps)
  obtain rd seq where p: "p = (rd, seq)" by (cases p)
  show ?case
    using Cons.prems Cons.IH unfolding p
    by (auto simp: Let_def split: if_splits prod.splits dest!: Cons.IH)
qed

lemma trim_reads_out:
  "trim_reads ops K t (zip rs (map (\<lambda>rd. clean (sequence rd)) rs)) = (t', ys) \<Longrightarrow>
     list_all2 (\<lambda>rd y. name y = name rd
        \<and> (y = rd \<or> (\<exists>n. K \<le> n \<and> y = trim_record rd n))
        \<and> (length (sequence y) = length (sequence rd) \<or> K \<le> length (sequence y))) rs ys"
proof (induction rs arbitrary: t t' ys)
  case Nil
  then show ?case by simp
next
  case (Cons rd rs)
  let ?n = "trim_on_abundance ops (graph t) (clean (sequence rd)) (cutoff t)"
  show ?case
  proof (cases "K \<le> ?n")
    case True
    then obtain t1 t2 zs where
      rest: "trim_reads ops K t1 (zip rs (map (\<lambda>rd. clean (sequence rd)) rs)) = (t2, zs)"
      and ys: "ys = trim_record rd ?n # zs"
      using Cons.prems by (auto simp: Let_def split: prod.splits if_splits)
    have "length (sequence (trim_record rd ?n)) = length (sequence rd)
        \<or> K \<le> length (sequence (trim_record rd ?n))"
      using True by (simp add: trim_record_def min_def)
    moreover have "name (trim_record rd ?n) = name rd"
      by (simp add: trim_record_def)
    ultimately show ?thesis
      using Cons.IH [OF rest] True unfolding ys by auto
  next
    case False
    then obtain t2 zs where
      rest: "trim_reads ops K t (zip rs (map (\<lambda>rd. clean (sequence rd)) rs)) = (t2, zs)"
      and ys: "ys = rd # zs"
      using Cons.prems by (auto simp: Let_def split: prod.splits)
    show ?thesis
      using Cons.IH [OF rest] unfolding ys by simp
  qed
qed

section \<open>The three branches of one loop iteration\<close>

lemma process_unit_save:
  assumes "low_cov ops t u"
  shows "process_unit ops K t (Some sv) u =
     ((seen t (reads_of u))
        \<lparr>graph := foldl (consume ops) (graph t) (map (\<lambda>rd. clean (sequence rd)) (reads_of u)),
         n_saved := n_saved t + length (reads_of u)\<rparr>,
      Some (sv @ reads_of u), [])"
  using assms
  by (simp add: process_unit_def examine_reads_eq is_low_coverage_iff save_reads_eq Let_def)

lemma process_unit_skip:
  assumes "low_cov ops t u" and "\<not> do_trim_low_abund t"
  shows "process_unit ops K t None u =
     ((seen t (reads_of u))
        \<lparr>n_skipped := n_skipped t + length (reads_of u),
         bp_skipped := bp_skipped t + sum_list (map len_read (reads_of u))\<rparr>,
      None, reads_of u)"
  using assms
  by (simp add: process_unit_def examine_reads_eq is_low_coverage_iff skip_reads_eq Let_def)

lemma process_unit_trim:
  assumes "\<not> low_cov ops t u \<or> (saver = None \<and> do_trim_low_abund t)"
  shows "process_unit ops K t saver u =
     (let (t2, ys) = trim_reads ops K (seen t (reads_of u))
                       (zip (reads_of u) (map (\<lambda>rd. clean (sequence rd)) (reads_of u)))
      in (t2, saver, ys))"
  using assms
  by (auto simp add: process_unit_def examine_reads_eq is_low_coverage_iff Let_def
      split: option.splits bool.splits)

text \<open>What an iteration that does not take the first branch leaves as it was.\<close>

lemma process_unit_not_saved:
  assumes run: "process_unit ops K t saver u = (t', saver', ys)"
    and no: "\<not> (saver \<noteq> None \<and> low_cov ops t u)"
  shows "saver' = saver \<and> n_saved t' = n_saved t \<and> graph t' = graph t
     \<and> length ys = length (reads_of u)"
proof (cases "low_cov ops t u \<and> \<not> do_trim_low_abund t")
  case True
  with no have none: "saver = None" by simp
  from True have low: "low_cov ops t u" and nt: "\<not> do_trim_low_abund t" by simp_all
  show ?thesis
    using run process_unit_skip [OF low nt, of K] unfolding none by auto
next
  case False
  with no have "\<not> low_cov ops t u \<or> (saver = None \<and> do_trim_low_abund t)" by auto
  from process_unit_trim [OF this, of K] run
  obtain t2 where tr: "trim_reads ops K (seen t (reads_of u))
      (zip (reads_of u) (map (\<lambda>rd. clean (sequence rd)) (reads_of u))) = (t2, ys)"
    and res: "t' = t2" "saver' = saver"
    by (auto simp: Let_def split: prod.splits)
  from trim_reads_fields [OF tr] trim_reads_out [OF tr] res
  show ?thesis by (auto dest: list_all2_lengthD)
qed

lemma list_all2_right_ex:
  "list_all2 P xs ys \<Longrightarrow> \<forall>y \<in> set ys. \<exists>x \<in> set xs. P x y"
  by (induction rule: list_all2_induct) auto

lemma process_unit_cases [case_names save skip trim]:
  obtains
    sv where "saver = Some sv" and "low_cov ops t u"
      and "process_unit ops K t saver u =
        ((seen t (reads_of u))
           \<lparr>graph := foldl (consume ops) (graph t)
                       (map (\<lambda>rd. clean (sequence rd)) (reads_of u)),
            n_saved := n_saved t + length (reads_of u)\<rparr>,
         Some (sv @ reads_of u), [])"
  | "saver = None" and "low_cov ops t u" and "\<not> do_trim_low_abund t"
      and "process_unit ops K t saver u =
        ((seen t (reads_of u))
           \<lparr>n_skipped := n_skipped t + length (reads_of u),
            bp_skipped := bp_skipped t + sum_list (map len_read (reads_of u))\<rparr>,
         None, reads_of u)"
  | t2 ys where "\<not> low_cov ops t u \<or> (saver = None \<and> do_trim_low_abund t)"
      and "trim_reads ops K (seen t (reads_of u))
             (zip (reads_of u) (map (\<lambda>rd. clean (sequence rd)) (reads_of u))) = (t2, ys)"
      and "process_unit ops K t saver u = (t2, saver, ys)"
proof (cases "low_cov ops t u")
  case low: True
  show ?thesis
  proof (cases saver)
    case (Some sv)
    with low process_unit_save [OF low, of K sv] that(1) show ?thesis by simp
  next
    case None
    show ?thesis
    proof (cases "do_trim_low_abund t")
      case True
      with None have c: "\<not> low_cov ops t u \<or> (saver = None \<and> do_trim_low_abund t)" by simp
      obtain t2 ys where tr: "trim_reads ops K (seen t (reads_of u))
             (zip (reads_of u) (map (\<lambda>rd. clean (sequence rd)) (reads_of u))) = (t2, ys)"
        by (cases "trim_reads ops K (seen t (reads_of u))
             (zip (reads_of u) (map (\<lambda>rd. clean (sequence rd)) (reads_of u)))")
      with process_unit_trim [OF c, of K] that(3) [OF c tr] show ?thesis by simp
    next
      case False
      with None low process_unit_skip [OF low False, of K] that(2) show ?thesis by simp
    qed
  qed
next
  case False
  then have c: "\<not> low_cov ops t u \<or> (saver = None \<and> do_trim_low_abund t)" by simp
  obtain t2 ys where tr: "trim_reads ops K (seen t (reads_of u))
         (zip (reads_of u) (map (\<lambda>rd. clean (sequence rd)) (reads_of u))) = (t2, ys)"
    by (cases "trim_reads ops K (seen t (reads_of u))
         (zip (reads_of u) (map (\<lambda>rd. clean (sequence rd)) (reads_of u)))")
  with process_unit_trim [OF c, of K] that(3) [OF c tr] show ?thesis by simp
qed

lemma process_unit_config:
  assumes "process_unit ops K t saver u = (t', saver', ys)"
  shows "do_trim_low_abund t' = do_trim_low_abund t \<and> cutoff t' = cutoff t
     \<and> normalize_limit t' = normalize_limit t \<and> (saver' = None \<longleftrightarrow> saver = None)"
proof (cases rule: process_unit_cases [where saver = saver and ops = ops and t = t and u = u and K = K])
  case (save sv)
  with assms show ?thesis by auto
next
  case skip
  with assms show ?thesis by auto
next
  case (trim t2 zs)
  with assms trim_reads_fields [OF trim(2)] show ?thesis by auto
qed

lemma process_unit_seen:
  assumes "process_unit ops K t saver u = (t', saver', ys)"
  shows "n_reads t' = n_reads t + length (reads_of u)
     \<and> n_bp t' = n_bp t + sum_list (map len_read (reads_of u))"
proof (cases rule: process_unit_cases [where saver = saver and ops = ops and t = t and u = u and K = K])
  case (save sv)
  with assms show ?thesis by auto
next
  case skip
  with assms show ?thesis by auto
next
  case (trim t2 zs)
  with assms trim_reads_fields [OF trim(2)] show ?thesis by auto
qed

lemma process_unit_skipped:
  assumes "process_unit ops K t saver u = (t', saver', ys)"
    and "saver \<noteq> None \<or> do_trim_low_abund t"
  shows "n_skipped t' = n_skipped t \<and> bp_skipped t' = bp_skipped t"
proof (cases rule: process_unit_cases [where saver = saver and ops = ops and t = t and u = u and K = K])
  case (save sv)
  with assms show ?thesis by auto
next
  case skip
  with assms show ?thesis by auto
next
  case (trim t2 zs)
  with assms trim_reads_fields [OF trim(2)] show ?thesis by auto
qed

lemma process_unit_spill:
  assumes "process_unit ops K t saver u = (t', saver', ys)"
  shows "\<exists>spilled. saver' = map_option (\<lambda>sv. sv @ spilled) saver
     \<and> (spilled = [] \<or> (saver \<noteq> None \<and> spilled = reads_of u))
     \<and> n_saved t' = n_saved t + length spilled
     \<and> graph t' = foldl (consume ops) (graph t) (map (\<lambda>rd. clean (sequence rd)) spilled)
     \<and> length ys + length spilled = length (reads_of u)"
proof (cases rule: process_unit_cases [where saver = saver and ops = ops and t = t and u = u and K = K])
  case (save sv)
  with assms show ?thesis by auto
next
  case skip
  with assms have "saver' = map_option (\<lambda>sv. sv @ []) saver
     \<and> n_saved t' = n_saved t + length ([]::read list)
     \<and> graph t' = foldl (consume ops) (graph t) (map (\<lambda>rd. clean (sequence rd)) [])
     \<and> length ys + length ([]::read list) = length (reads_of u)" by auto
  then show ?thesis by blast
next
  case (trim t2 zs)
  with assms trim_reads_fields [OF trim(2)] trim_reads_out [OF trim(2)]
  have "saver' = map_option (\<lambda>sv. sv @ []) saver
     \<and> n_saved t' = n_saved t + length ([]::read list)
     \<and> graph t' = foldl (consume ops) (graph t) (map (\<lambda>rd. clean (sequence rd)) [])
     \<and> length ys + length ([]::read list) = length (reads_of u)"
    by (cases saver) (auto dest: list_all2_lengthD)
  then show ?thesis by blast
qed

lemma process_unit_out:
  assumes "process_unit ops K t saver u = (t', saver', ys)"
  shows "\<forall>y \<in> set ys. \<exists>rd \<in> set (reads_of u). name y = name rd
        \<and> (y = rd \<or> (\<exists>n. K \<le> n \<and> y = trim_record rd n))
        \<and> (length (sequence y) = length (sequence rd) \<or> K \<le> length (sequence y))"
proof (cases rule: process_unit_cases [where saver = saver and ops = ops and t = t and u = u and K = K])
  case (save sv)
  with assms show ?thesis by auto
next
  case skip
  with assms show ?thesis by auto
next
  case (trim t2 zs)
  with assms have ys: "ys = zs" by simp
  from list_all2_right_ex [OF trim_reads_out [OF trim(2)]] show ?thesis
    unfolding ys .
qed

section \<open>A whole stream of units\<close>

lemma process_Cons_elim:
  assumes "process ops K t saver (u # us) = (t', saver', ys)"
  obtains t1 saver1 ys1 ys2 where
    "process_unit ops K t saver u = (t1, saver1, ys1)"
    "process ops K t1 saver1 us = (t', saver', ys2)"
    "ys = ys1 @ ys2"
  using assms by (auto simp: Let_def split: prod.splits)

lemma process_config:
  "process ops K t saver units = (t', saver', ys) \<Longrightarrow>
     do_trim_low_abund t' = do_trim_low_abund t \<and> cutoff t' = cutoff t
     \<and> normalize_limit t' = normalize_limit t \<and> (saver' = None \<longleftrightarrow> saver = None)"
proof (induction units arbitrary: t saver ys)
  case Nil
  then show ?case by simp
next
  case (Cons u us)
  from Cons.prems obtain t1 saver1 ys1 ys2 where
    u: "process_unit ops K t saver u = (t1, saver1, ys1)"
    and us: "process ops K t1 saver1 us = (t', saver', ys2)"
    by (rule process_Cons_elim)
  from process_unit_config [OF u] Cons.IH [OF us] show ?case by simp
qed

lemma process_seen:
  "process ops K t saver units = (t', saver', ys) \<Longrightarrow>
     n_reads t' = n_reads t + length (all_reads units)
     \<and> n_bp t' = n_bp t + sum_list (map len_read (all_reads units))"
proof (induction units arbitrary: t saver ys)
  case Nil
  then show ?case by simp
next
  case (Cons u us)
  from Cons.prems obtain t1 saver1 ys1 ys2 where
    u: "process_unit ops K t saver u = (t1, saver1, ys1)"
    and us: "process ops K t1 saver1 us = (t', saver', ys2)"
    by (rule process_Cons_elim)
  from process_unit_seen [OF u] Cons.IH [OF us] show ?case by simp
qed

lemma process_skipped:
  "process ops K t saver units = (t', saver', ys) \<Longrightarrow>
   saver \<noteq> None \<or> do_trim_low_abund t \<Longrightarrow>
     n_skipped t' = n_skipped t \<and> bp_skipped t' = bp_skipped t"
proof (induction units arbitrary: t saver ys)
  case Nil
  then show ?case by simp
next
  case (Cons u us)
  from Cons.prems(1) obtain t1 saver1 ys1 ys2 where
    u: "process_unit ops K t saver u = (t1, saver1, ys1)"
    and us: "process ops K t1 saver1 us = (t', saver', ys2)"
    by (rule process_Cons_elim)
  from process_unit_config [OF u] Cons.prems(2)
  have "saver1 \<noteq> None \<or> do_trim_low_abund t1" by simp
  from process_unit_skipped [OF u Cons.prems(2)] Cons.IH [OF us this] show ?case by simp
qed

lemma process_spill:
  "process ops K t saver units = (t', saver', ys) \<Longrightarrow>
   \<exists>spilled. saver' = map_option (\<lambda>sv. sv @ spilled) saver
     \<and> (saver = None \<longrightarrow> spilled = [])
     \<and> subseq spilled (all_reads units)
     \<and> n_saved t' = n_saved t + length spilled
     \<and> graph t' = foldl (consume ops) (graph t) (map (\<lambda>rd. clean (sequence rd)) spilled)
     \<and> length ys + length spilled = length (all_reads units)"
proof (induction units arbitrary: t saver ys)
  case Nil
  then show ?case by (cases saver) auto
next
  case (Cons u us)
  from Cons.prems obtain t1 saver1 ys1 ys2 where
    u: "process_unit ops K t saver u = (t1, saver1, ys1)"
    and us: "process ops K t1 saver1 us = (t', saver', ys2)"
    and ys: "ys = ys1 @ ys2"
    by (rule process_Cons_elim)
  from process_unit_spill [OF u] obtain s1 where
    s1: "saver1 = map_option (\<lambda>sv. sv @ s1) saver"
      "s1 = [] \<or> (saver \<noteq> None \<and> s1 = reads_of u)"
      "n_saved t1 = n_saved t + length s1"
      "graph t1 = foldl (consume ops) (graph t) (map (\<lambda>rd. clean (sequence rd)) s1)"
      "length ys1 + length s1 = length (reads_of u)"
    by blast
  from Cons.IH [OF us] obtain s2 where
    s2: "saver' = map_option (\<lambda>sv. sv @ s2) saver1"
      "saver1 = None \<longrightarrow> s2 = []"
      "subseq s2 (all_reads us)"
      "n_saved t' = n_saved t1 + length s2"
      "graph t' = foldl (consume ops) (graph t1) (map (\<lambda>rd. clean (sequence rd)) s2)"
      "length ys2 + length s2 = length (all_reads us)"
    by blast
  have a: "saver' = map_option (\<lambda>sv. sv @ (s1 @ s2)) saver"
    using s1(1) s2(1) by (cases saver) simp_all
  have b: "saver = None \<longrightarrow> s1 @ s2 = []"
    using s1(1,2) s2(2) by auto
  have "subseq s1 (reads_of u)"
    using s1(2) by auto
  then have c: "subseq (s1 @ s2) (all_reads (u # us))"
    using s2(3) by (simp add: list_emb_append_mono)
  have d: "n_saved t' = n_saved t + length (s1 @ s2)"
    using s1(3) s2(4) by simp
  have e: "graph t' = foldl (consume ops) (graph t) (map (\<lambda>rd. clean (sequence rd)) (s1 @ s2))"
    using s1(4) s2(5) by simp
  have f: "length ys + length (s1 @ s2) = length (all_reads (u # us))"
    using s1(5) s2(6) ys by simp
  from a b c d e f show ?case by blast
qed

lemma process_out:
  "process ops K t saver units = (t', saver', ys) \<Longrightarrow>
   \<forall>y \<in> set ys. \<exists>rd \<in> set (all_reads units). name y = name rd
        \<and> (y = rd \<or> (\<exists>n. K \<le> n \<and> y = trim_record rd n))
        \<and> (length (sequence y) = length (sequence rd) \<or> K \<le> length (sequence y))"
proof (induction units arbitrary: t saver ys)
  case Nil
  then show ?case by simp
next
  case (Cons u us)
  from Cons.prems obtain t1 saver1 ys1 ys2 where
    u: "process_unit ops K t saver u = (t1, saver1, ys1)"
    and us: "process ops K t1 saver1 us = (t', saver', ys2)"
    and ys: "ys = ys1 @ ys2"
    by (rule process_Cons_elim)
  show ?case
  proof
    fix y assume "y \<in> set ys"
    then consider "y \<in> set ys1" | "y \<in> set ys2" unfolding ys by auto
    then show "\<exists>rd \<in> set (all_reads (u # us)). name y = name rd
        \<and> (y = rd \<or> (\<exists>n. K \<le> n \<and> y = trim_record rd n))
        \<and> (length (sequence y) = length (sequence rd) \<or> K \<le> length (sequence y))"
    proof cases
      case 1
      with process_unit_out [OF u] obtain rd where "rd \<in> set (reads_of u)" "name y = name rd
        \<and> (y = rd \<or> (\<exists>n. K \<le> n \<and> y = trim_record rd n))
        \<and> (length (sequence y) = length (sequence rd) \<or> K \<le> length (sequence y))"
        by blast
      then show ?thesis by auto
    next
      case 2
      with Cons.IH [OF us] obtain rd where "rd \<in> set (all_reads us)" "name y = name rd
        \<and> (y = rd \<or> (\<exists>n. K \<le> n \<and> y = trim_record rd n))
        \<and> (length (sequence y) = length (sequence rd) \<or> K \<le> length (sequence y))"
        by blast
      then show ?thesis by auto
    qed
  qed
qed

section \<open>The reader and the loops that write\<close>

lemma all_reads_pair_up: "all_reads (pair_up is_pair force_single xs) = xs"
  by (induction is_pair force_single xs rule: pair_up.induct) simp_all

lemma all_reads_reader:
  "all_reads (broken_paired_reader is_pair m force_single records)
     = filter (\<lambda>rd. m \<le> length (sequence rd)) records"
  by (simp add: broken_paired_reader_def all_reads_pair_up)

lemma write_pass1_eq:
  "write_pass1 fp st ys =
     st\<lparr>written := written st @ map (Pair fp) ys,
        written_bp := written_bp st + sum_list (map len_read ys),
        written_reads := written_reads st + length ys\<rparr>"
  by (induction ys arbitrary: st) simp_all

lemma write_pass2_eq:
  "write_pass2 fp st ys =
     st\<lparr>written := written st @ map (Pair fp) ys,
        written_reads := written_reads st + length ys\<rparr>"
  by (induction ys arbitrary: st) simp_all

lemma subseq_filter_left: "subseq (filter P xs) xs"
  by (induction xs) auto

lemma subseq_in_set: "subseq xs ys \<Longrightarrow> x \<in> set xs \<Longrightarrow> x \<in> set ys"
  by (erule list_emb_set) auto

lemma reader_out_long:
  assumes run: "trimmer_call ops t (broken_paired_reader is_pair (ksize ops) force_single records) saver
       = (t', saver', ys)"
  shows "\<forall>y \<in> set ys. ksize ops \<le> length (sequence y)"
proof
  fix y assume "y \<in> set ys"
  with process_out [OF run [unfolded trimmer_call_def]]
  obtain rd where rd: "rd \<in> set (all_reads (broken_paired_reader is_pair (ksize ops) force_single records))"
    and len: "length (sequence y) = length (sequence rd) \<or> ksize ops \<le> length (sequence y)"
    by blast
  from rd have "ksize ops \<le> length (sequence rd)"
    by (simp add: all_reads_reader)
  with len show "ksize ops \<le> length (sequence y)" by auto
qed

section \<open>One input file of the first pass\<close>

lemma pass1_file_step:
  obtains t spilled ys where
    "trimmer_call ops (trimmer st)
       (broken_paired_reader is_pair K (ignore_pairs a) (fs f)) (Some []) = (t, Some spilled, ys)"
    and "trimmer (pass1_file ops is_pair fs a K st f) = t"
    and "written (pass1_file ops is_pair fs a K st f) = written st @ map (Pair (trim_sink a f)) ys"
    and "written_reads (pass1_file ops is_pair fs a K st f) = written_reads st + length ys"
    and "written_bp (pass1_file ops is_pair fs a K st f)
           = written_bp st + sum_list (map len_read ys)"
    and "tempdir (pass1_file ops is_pair fs a K st f) = (tempdir st)(spill_name f \<mapsto> spilled)"
    and "pass2list (pass1_file ops is_pair fs a K st f)
           = pass2list st @ [(f, spill_name f, trim_sink a f)]"
proof -
  obtain t sv' ys where run: "trimmer_call ops (trimmer st)
       (broken_paired_reader is_pair K (ignore_pairs a) (fs f)) (Some []) = (t, sv', ys)"
    by (cases "trimmer_call ops (trimmer st)
       (broken_paired_reader is_pair K (ignore_pairs a) (fs f)) (Some [])")
  from process_config [OF run [unfolded trimmer_call_def]]
  obtain spilled where sv': "sv' = Some spilled" by auto
  show ?thesis
    by (rule that [of t spilled ys])
      (simp_all add: run [unfolded sv'] pass1_file_def Let_def write_pass1_eq sv' [symmetric] run
        spill_name_def)
qed

lemma pass1_call_eq:
  "pass1_call ops is_pair fs a st f =
     (trimmer (pass1_file ops is_pair fs a (ksize ops) st f),
      Some (pass1_spilled ops is_pair fs a st f), pass1_yielded ops is_pair fs a st f)"
proof -
  obtain t spilled ys where
    run: "trimmer_call ops (trimmer st)
       (broken_paired_reader is_pair (ksize ops) (ignore_pairs a) (fs f)) (Some [])
         = (t, Some spilled, ys)"
    and "trimmer (pass1_file ops is_pair fs a (ksize ops) st f) = t"
    by (rule pass1_file_step)
  then show ?thesis
    by (simp add: pass1_call_def pass1_spilled_def pass1_yielded_def)
qed

lemma pass1_file_fields:
  fixes st :: "'g run" and ops is_pair fs a f
  defines "st' \<equiv> pass1_file ops is_pair fs a (ksize ops) st f"
    and "ys \<equiv> pass1_yielded ops is_pair fs a st f"
    and "spilled \<equiv> pass1_spilled ops is_pair fs a st f"
  shows "written st' = written st @ map (Pair (trim_sink a f)) ys"
    and "written_reads st' = written_reads st + length ys"
    and "written_bp st' = written_bp st + sum_list (map len_read ys)"
    and "tempdir st' = (tempdir st)(spill_name f \<mapsto> spilled)"
    and "pass2list st' = pass2list st @ [(f, spill_name f, trim_sink a f)]"
proof -
  obtain t sp zs where
    run: "trimmer_call ops (trimmer st)
       (broken_paired_reader is_pair (ksize ops) (ignore_pairs a) (fs f)) (Some [])
         = (t, Some sp, zs)"
    and fields: "written st' = written st @ map (Pair (trim_sink a f)) zs"
      "written_reads st' = written_reads st + length zs"
      "written_bp st' = written_bp st + sum_list (map len_read zs)"
      "tempdir st' = (tempdir st)(spill_name f \<mapsto> sp)"
      "pass2list st' = pass2list st @ [(f, spill_name f, trim_sink a f)]"
    unfolding st'_def by (rule pass1_file_step)
  from run have "ys = zs" "spilled = sp"
    by (simp_all add: ys_def spilled_def pass1_call_def pass1_spilled_def pass1_yielded_def)
  with fields show "written st' = written st @ map (Pair (trim_sink a f)) ys"
    and "written_reads st' = written_reads st + length ys"
    and "written_bp st' = written_bp st + sum_list (map len_read ys)"
    and "tempdir st' = (tempdir st)(spill_name f \<mapsto> spilled)"
    and "pass2list st' = pass2list st @ [(f, spill_name f, trim_sink a f)]"
    by simp_all
qed

lemma pass1_file_trimmer:
  fixes st :: "'g run" and ops is_pair fs a f
  defines "st' \<equiv> pass1_file ops is_pair fs a (ksize ops) st f"
    and "ys \<equiv> pass1_yielded ops is_pair fs a st f"
    and "spilled \<equiv> pass1_spilled ops is_pair fs a st f"
  shows "n_reads (trimmer st') = n_reads (trimmer st) + length ys + length spilled"
    and "n_saved (trimmer st') = n_saved (trimmer st) + length spilled"
    and "n_skipped (trimmer st') = n_skipped (trimmer st)"
    and "bp_skipped (trimmer st') = bp_skipped (trimmer st)"
    and "graph (trimmer st')
         = foldl (consume ops) (graph (trimmer st)) (map (\<lambda>rd. clean (sequence rd)) spilled)"
    and "subseq spilled (fs f)"
    and "\<forall>rd \<in> set spilled. ksize ops \<le> length (sequence rd)"
    and "\<forall>y \<in> set ys. ksize ops \<le> length (sequence y)"
proof -
  let ?units = "broken_paired_reader is_pair (ksize ops) (ignore_pairs a) (fs f)"
  have run: "trimmer_call ops (trimmer st) ?units (Some []) = (trimmer st', Some spilled, ys)"
    using pass1_call_eq [of ops is_pair fs a st f]
    unfolding pass1_call_def st'_def ys_def spilled_def .
  note pr = run [unfolded trimmer_call_def]
  from process_spill [OF pr] have
    sp: "subseq spilled (all_reads ?units)"
      "n_saved (trimmer st') = n_saved (trimmer st) + length spilled"
      "graph (trimmer st')
         = foldl (consume ops) (graph (trimmer st)) (map (\<lambda>rd. clean (sequence rd)) spilled)"
      "length ys + length spilled = length (all_reads ?units)"
    by auto
  from process_seen [OF pr] sp(4)
  show "n_reads (trimmer st') = n_reads (trimmer st) + length ys + length spilled" by simp
  from process_skipped [OF pr]
  show "n_skipped (trimmer st') = n_skipped (trimmer st)"
    and "bp_skipped (trimmer st') = bp_skipped (trimmer st)"
    by simp_all
  show "subseq spilled (fs f)"
    using sp(1) subseq_filter_left [of "\<lambda>rd. ksize ops \<le> length (sequence rd)" "fs f"]
    unfolding all_reads_reader by (rule subseq_order.order_trans)
  show "\<forall>rd \<in> set spilled. ksize ops \<le> length (sequence rd)"
    using sp(1) [unfolded all_reads_reader] by (auto dest: subseq_in_set)
  show "\<forall>y \<in> set ys. ksize ops \<le> length (sequence y)"
    by (rule reader_out_long [OF run])
  show "n_saved (trimmer st') = n_saved (trimmer st) + length spilled" by (rule sp(2))
  show "graph (trimmer st')
         = foldl (consume ops) (graph (trimmer st)) (map (\<lambda>rd. clean (sequence rd)) spilled)"
    by (rule sp(3))
qed

section \<open>Invariants of the first pass\<close>

lemma pass1_files_Nil: "pass1_files ops is_pair fs ct a [] = start_run ct a"
  by (simp add: pass1_files_def)

lemma pass1_files_snoc:
  "pass1_files ops is_pair fs ct a (files @ [f])
     = pass1_file ops is_pair fs a (ksize ops) (pass1_files ops is_pair fs ct a files) f"
  by (simp add: pass1_files_def)

lemma first_pass_files:
  "first_pass ops is_pair fs ct a = pass1_files ops is_pair fs ct a (input_filenames a)"
  by (simp add: pass1_files_def first_pass_def)

lemma pass1_files_counts:
  "n_skipped (trimmer (pass1_files ops is_pair fs ct a files)) = 0
   \<and> bp_skipped (trimmer (pass1_files ops is_pair fs ct a files)) = 0
   \<and> n_reads (trimmer (pass1_files ops is_pair fs ct a files))
       = written_reads (pass1_files ops is_pair fs ct a files)
         + n_saved (trimmer (pass1_files ops is_pair fs ct a files))
   \<and> length (written (pass1_files ops is_pair fs ct a files))
       = written_reads (pass1_files ops is_pair fs ct a files)
   \<and> written_bp (pass1_files ops is_pair fs ct a files)
       = sum_list (map (\<lambda>w. len_read (snd w)) (written (pass1_files ops is_pair fs ct a files)))
   \<and> (\<forall>w \<in> set (written (pass1_files ops is_pair fs ct a files)).
         ksize ops \<le> length (sequence (snd w)))"
proof (induction files rule: rev_induct)
  case Nil
  show ?case by (simp add: pass1_files_Nil start_run_def Trimmer_def)
next
  case (snoc f files)
  define st where "st = pass1_files ops is_pair fs ct a files"
  from snoc [folded st_def] pass1_file_trimmer(8) [of ops is_pair fs a st f]
  show ?case
    unfolding pass1_files_snoc st_def [symmetric]
    by (auto simp: comp_def pass1_file_fields pass1_file_trimmer(1-4))
qed

lemma pass1_files_graph:
  "\<exists>consumed. subseq consumed (concat (map fs files))
     \<and> graph (trimmer (pass1_files ops is_pair fs ct a files))
         = foldl (consume ops) ct (map (\<lambda>rd. clean (sequence rd)) consumed)"
proof (induction files rule: rev_induct)
  case Nil
  have "subseq [] (concat (map fs [])) \<and> graph (trimmer (pass1_files ops is_pair fs ct a []))
      = foldl (consume ops) ct (map (\<lambda>rd. clean (sequence rd)) [])"
    by (simp add: pass1_files_Nil start_run_def Trimmer_def)
  then show ?case by blast
next
  case (snoc f files)
  define st where "st = pass1_files ops is_pair fs ct a files"
  define st' where "st' = pass1_file ops is_pair fs a (ksize ops) st f"
  define spilled where "spilled = pass1_spilled ops is_pair fs a st f"
  from snoc [folded st_def] obtain c1 where c1: "subseq c1 (concat (map fs files))"
    "graph (trimmer st) = foldl (consume ops) ct (map (\<lambda>rd. clean (sequence rd)) c1)"
    by blast
  have sp: "graph (trimmer st')
       = foldl (consume ops) (graph (trimmer st)) (map (\<lambda>rd. clean (sequence rd)) spilled)"
    "subseq spilled (fs f)"
    unfolding st'_def spilled_def by (rule pass1_file_trimmer)+
  have "subseq (c1 @ spilled) (concat (map fs (files @ [f])))"
    using c1(1) sp(2) by (simp add: list_emb_append_mono)
  moreover have "graph (trimmer st')
      = foldl (consume ops) ct (map (\<lambda>rd. clean (sequence rd)) (c1 @ spilled))"
    using c1(2) sp(1) by simp
  ultimately show ?case
    unfolding pass1_files_snoc st_def [symmetric] st'_def [symmetric] by blast
qed

lemma pass1_files_spill:
  "pass2list (pass1_files ops is_pair fs ct a files)
     = map (\<lambda>f. (f, spill_name f, trim_sink a f)) files
   \<and> (distinct (map spill_name files) \<longrightarrow>
        n_saved (trimmer (pass1_files ops is_pair fs ct a files))
          = sum_list (map (\<lambda>f. length (the (tempdir (pass1_files ops is_pair fs ct a files)
                                                  (spill_name f)))) files)
        \<and> (\<forall>f \<in> set files. \<exists>records.
              tempdir (pass1_files ops is_pair fs ct a files) (spill_name f) = Some records
              \<and> (\<forall>rd \<in> set records. ksize ops \<le> length (sequence rd))))"
proof (induction files rule: rev_induct)
  case Nil
  show ?case by (simp add: pass1_files_Nil start_run_def Trimmer_def)
next
  case (snoc f files)
  define st where "st = pass1_files ops is_pair fs ct a files"
  define st' where "st' = pass1_file ops is_pair fs a (ksize ops) st f"
  define spilled where "spilled = pass1_spilled ops is_pair fs a st f"
  note IH = snoc [folded st_def]
  have sp:
    "tempdir st' = (tempdir st)(spill_name f \<mapsto> spilled)"
    "pass2list st' = pass2list st @ [(f, spill_name f, trim_sink a f)]"
    "n_saved (trimmer st') = n_saved (trimmer st) + length spilled"
    "\<forall>rd \<in> set spilled. ksize ops \<le> length (sequence rd)"
    unfolding st'_def spilled_def
    by (rule pass1_file_fields pass1_file_trimmer)+
  have list: "pass2list st' = map (\<lambda>f. (f, spill_name f, trim_sink a f)) (files @ [f])"
    using IH sp(2) by simp
  have rest: "n_saved (trimmer st')
        = sum_list (map (\<lambda>f. length (the (tempdir st' (spill_name f)))) (files @ [f]))
      \<and> (\<forall>g \<in> set (files @ [f]). \<exists>records. tempdir st' (spill_name g) = Some records
            \<and> (\<forall>rd \<in> set records. ksize ops \<le> length (sequence rd)))"
    if d: "distinct (map spill_name (files @ [f]))"
  proof -
    from d have d1: "distinct (map spill_name files)" by simp
    from d have new: "\<forall>g \<in> set files. spill_name g \<noteq> spill_name f"
      by (auto simp: image_iff)
    from IH d1 have old: "n_saved (trimmer st)
        = sum_list (map (\<lambda>f. length (the (tempdir st (spill_name f)))) files)"
      "\<forall>g \<in> set files. \<exists>records. tempdir st (spill_name g) = Some records
            \<and> (\<forall>rd \<in> set records. ksize ops \<le> length (sequence rd))"
      by simp_all
    have same: "map (\<lambda>g. length (the (tempdir st' (spill_name g)))) files
        = map (\<lambda>g. length (the (tempdir st (spill_name g)))) files"
      using new by (simp add: sp(1))
    have "sum_list (map (\<lambda>f. length (the (tempdir st' (spill_name f)))) (files @ [f]))
        = sum_list (map (\<lambda>g. length (the (tempdir st (spill_name g)))) files) + length spilled"
      unfolding map_append sum_list_append same by (simp add: sp(1))
    with old(1) sp(3) have a: "n_saved (trimmer st')
        = sum_list (map (\<lambda>f. length (the (tempdir st' (spill_name f)))) (files @ [f]))"
      by simp
    have b: "\<forall>g \<in> set (files @ [f]). \<exists>records. tempdir st' (spill_name g) = Some records
            \<and> (\<forall>rd \<in> set records. ksize ops \<le> length (sequence rd))"
      using old(2) new sp(4) by (auto simp: sp(1))
    from a b show ?thesis by blast
  qed
  from list rest show ?case
    unfolding pass1_files_snoc st_def [symmetric] st'_def [symmetric] by blast
qed

lemma pass1_files_config:
  "do_trim_low_abund (trimmer (pass1_files ops is_pair fs ct a files)) = (\<not> variable_coverage a)"
proof (induction files rule: rev_induct)
  case Nil
  show ?case by (simp add: pass1_files_Nil start_run_def Trimmer_def)
next
  case (snoc f files)
  define st where "st = pass1_files ops is_pair fs ct a files"
  from pass1_call_eq [of ops is_pair fs a st f]
  have "process ops (ksize ops) (trimmer st) (Some [])
      (broken_paired_reader is_pair (ksize ops) (ignore_pairs a) (fs f))
    = (trimmer (pass1_file ops is_pair fs a (ksize ops) st f),
       Some (pass1_spilled ops is_pair fs a st f), pass1_yielded ops is_pair fs a st f)"
    by (simp add: pass1_call_def trimmer_call_def)
  from process_config [OF this] snoc [folded st_def] show ?case
    unfolding pass1_files_snoc st_def [symmetric] by simp
qed

section \<open>The second pass\<close>

lemma pass2_loop_Cons:
  "pass2_loop ops is_pair (ksize ops) st ((f, p, trimfp) # rest) =
     (case tempdir st p of
        None \<Rightarrow> (Some IOError, st)
      | Some records \<Rightarrow>
          pass2_loop ops is_pair (ksize ops) (pass2_entry ops is_pair st p trimfp records) rest)"
  by (simp add: pass2_entry_def pass2_call_def Let_def split: option.splits prod.splits)

lemma pass2_entry_fields:
  fixes st :: "'g run" and ops is_pair p trimfp records
  defines "st' \<equiv> pass2_entry ops is_pair st p trimfp records"
    and "ys \<equiv> snd (snd (pass2_call ops is_pair st records))"
  shows "written st' = written st @ map (Pair trimfp) ys"
    and "written_reads st' = written_reads st + length ys"
    and "written_bp st' = written_bp st"
    and "tempdir st' = (tempdir st)(p := None)"
    and "pass2list st' = pass2list st"
    and "trimmer st' = fst (pass2_call ops is_pair st records)"
  unfolding st'_def ys_def pass2_entry_def
  by (simp_all add: Let_def write_pass2_eq split: prod.splits)

lemma pass2_call_facts:
  fixes st :: "'g run" and ops is_pair records
  defines "t \<equiv> fst (pass2_call ops is_pair st records)"
    and "ys \<equiv> snd (snd (pass2_call ops is_pair st records))"
  shows "length ys = length (filter (\<lambda>rd. ksize ops \<le> length (sequence rd)) records)"
    and "n_saved t = n_saved (trimmer st)"
    and "graph t = graph (trimmer st)"
    and "n_reads t = n_reads (trimmer st)
           + length (filter (\<lambda>rd. ksize ops \<le> length (sequence rd)) records)"
    and "\<forall>y \<in> set ys. ksize ops \<le> length (sequence y)"
proof -
  let ?units = "broken_paired_reader is_pair (ksize ops) True records"
  obtain sv where run: "trimmer_call ops (trimmer st) ?units None = (t, sv, ys)"
    unfolding t_def ys_def pass2_call_def
    by (cases "trimmer_call ops (trimmer st) ?units None") simp
  note pr = run [unfolded trimmer_call_def]
  from process_spill [OF pr] have
    sp: "n_saved t = n_saved (trimmer st)" "graph t = graph (trimmer st)"
      "length ys = length (all_reads ?units)"
    by auto
  show "length ys = length (filter (\<lambda>rd. ksize ops \<le> length (sequence rd)) records)"
    using sp(3) by (simp add: all_reads_reader)
  show "n_saved t = n_saved (trimmer st)" by (rule sp(1))
  show "graph t = graph (trimmer st)" by (rule sp(2))
  show "n_reads t = n_reads (trimmer st)
           + length (filter (\<lambda>rd. ksize ops \<le> length (sequence rd)) records)"
    using process_seen [OF pr] by (simp add: all_reads_reader)
  show "\<forall>y \<in> set ys. ksize ops \<le> length (sequence y)"
    by (rule reader_out_long [OF run])
qed

lemma pass2_loop_keeps:
  "pass2_loop ops is_pair (ksize ops) st entries = (e, st') \<Longrightarrow>
     graph (trimmer st') = graph (trimmer st)
     \<and> n_saved (trimmer st') = n_saved (trimmer st)
     \<and> written_bp st' = written_bp st
     \<and> (\<exists>more. written st' = written st @ more
          \<and> written_reads st' = written_reads st + length more
          \<and> (\<forall>w \<in> set more. ksize ops \<le> length (sequence (snd w))))"
proof (induction entries arbitrary: st)
  case Nil
  then show ?case by simp
next
  case (Cons en entries)
  obtain f p trimfp where en: "en = (f, p, trimfp)" by (cases en)
  show ?case
  proof (cases "tempdir st p")
    case None
    with Cons.prems show ?thesis by (simp add: en)
  next
    case (Some records)
    define st1 where "st1 = pass2_entry ops is_pair st p trimfp records"
    define ys where "ys = snd (snd (pass2_call ops is_pair st records))"
    from Cons.prems
    have "pass2_loop ops is_pair (ksize ops) st1 entries = (e, st')"
      unfolding en pass2_loop_Cons Some st1_def by simp
    from Cons.IH [OF this] obtain more where
      ih: "graph (trimmer st') = graph (trimmer st1)"
        "n_saved (trimmer st') = n_saved (trimmer st1)"
        "written_bp st' = written_bp st1"
        "written st' = written st1 @ more"
        "written_reads st' = written_reads st1 + length more"
        "\<forall>w \<in> set more. ksize ops \<le> length (sequence (snd w))"
      by blast
    have st1: "written st1 = written st @ map (Pair trimfp) ys"
      "written_reads st1 = written_reads st + length ys"
      "written_bp st1 = written_bp st"
      "graph (trimmer st1) = graph (trimmer st)"
      "n_saved (trimmer st1) = n_saved (trimmer st)"
      "\<forall>y \<in> set ys. ksize ops \<le> length (sequence y)"
      unfolding st1_def ys_def
      by (simp_all add: pass2_entry_fields pass2_call_facts)
    have "written st' = written st @ (map (Pair trimfp) ys @ more)
          \<and> written_reads st' = written_reads st + length (map (Pair trimfp) ys @ more)
          \<and> (\<forall>w \<in> set (map (Pair trimfp) ys @ more). ksize ops \<le> length (sequence (snd w)))"
      using ih(4-6) st1(1,2,6) by auto
    then have "\<exists>more. written st' = written st @ more
          \<and> written_reads st' = written_reads st + length more
          \<and> (\<forall>w \<in> set more. ksize ops \<le> length (sequence (snd w)))"
      by blast
    with ih(1-3) st1(3-5) show ?thesis by simp
  qed
qed

lemma pass2_loop_done:
  "pass2_loop ops is_pair (ksize ops) st entries = (None, st') \<Longrightarrow>
     distinct (map (\<lambda>en. fst (snd en)) entries)
     \<and> (\<forall>en \<in> set entries. tempdir st (fst (snd en)) \<noteq> None)
     \<and> written_reads st' = written_reads st
         + sum_list (map (\<lambda>en. length (filter (\<lambda>rd. ksize ops \<le> length (sequence rd))
                                      (the (tempdir st (fst (snd en)))))) entries)"
proof (induction entries arbitrary: st)
  case Nil
  then show ?case by simp
next
  case (Cons en entries)
  obtain f p trimfp where en: "en = (f, p, trimfp)" by (cases en)
  from Cons.prems obtain records where Some: "tempdir st p = Some records"
    by (cases "tempdir st p") (simp_all add: en)
  define st1 where "st1 = pass2_entry ops is_pair st p trimfp records"
  define ys where "ys = snd (snd (pass2_call ops is_pair st records))"
  from Cons.prems
  have "pass2_loop ops is_pair (ksize ops) st1 entries = (None, st')"
    unfolding en pass2_loop_Cons Some st1_def by simp
  from Cons.IH [OF this] have
    ih: "distinct (map (\<lambda>en. fst (snd en)) entries)"
      "\<forall>en \<in> set entries. tempdir st1 (fst (snd en)) \<noteq> None"
      "written_reads st' = written_reads st1
         + sum_list (map (\<lambda>en. length (filter (\<lambda>rd. ksize ops \<le> length (sequence rd))
                                      (the (tempdir st1 (fst (snd en)))))) entries)"
    by simp_all
  have st1: "tempdir st1 = (tempdir st)(p := None)"
    "written_reads st1 = written_reads st
       + length (filter (\<lambda>rd. ksize ops \<le> length (sequence rd)) records)"
    unfolding st1_def by (simp_all add: pass2_entry_fields pass2_call_facts)
  from ih(2) have fresh: "\<forall>en \<in> set entries. fst (snd en) \<noteq> p"
    unfolding st1(1) by auto
  then have a: "distinct (map (\<lambda>en. fst (snd en)) (en # entries))"
    using ih(1) by (auto simp: en image_iff)
  have b: "\<forall>x \<in> set (en # entries). tempdir st (fst (snd x)) \<noteq> None"
    using ih(2) fresh Some unfolding st1(1) by (auto simp: en)
  have same: "map (\<lambda>en. length (filter (\<lambda>rd. ksize ops \<le> length (sequence rd))
                                      (the (tempdir st1 (fst (snd en)))))) entries
      = map (\<lambda>en. length (filter (\<lambda>rd. ksize ops \<le> length (sequence rd))
                                      (the (tempdir st (fst (snd en)))))) entries"
    using fresh unfolding st1(1) by simp
  have c: "written_reads st' = written_reads st
         + sum_list (map (\<lambda>en. length (filter (\<lambda>rd. ksize ops \<le> length (sequence rd))
                                      (the (tempdir st (fst (snd en)))))) (en # entries))"
    using ih(3) st1(2) Some unfolding same by (simp add: en)
  from a b c show ?case by blast
qed

lemma pass2_call_skipped:
  assumes "do_trim_low_abund (trimmer st)"
  shows "do_trim_low_abund (fst (pass2_call ops is_pair st records))
    \<and> n_skipped (fst (pass2_call ops is_pair st records)) = n_skipped (trimmer st)
    \<and> bp_skipped (fst (pass2_call ops is_pair st records)) = bp_skipped (trimmer st)"
proof -
  obtain t sv ys where run: "process ops (ksize ops) (trimmer st) None
      (broken_paired_reader is_pair (ksize ops) True records) = (t, sv, ys)"
    by (cases "process ops (ksize ops) (trimmer st) None
      (broken_paired_reader is_pair (ksize ops) True records)")
  from process_config [OF run] process_skipped [OF run] assms show ?thesis
    by (simp add: pass2_call_def trimmer_call_def run)
qed

lemma pass2_loop_skipped:
  "pass2_loop ops is_pair (ksize ops) st entries = (e, st') \<Longrightarrow>
   do_trim_low_abund (trimmer st) \<Longrightarrow>
     n_skipped (trimmer st') = n_skipped (trimmer st)
     \<and> bp_skipped (trimmer st') = bp_skipped (trimmer st)"
proof (induction entries arbitrary: st)
  case Nil
  then show ?case by simp
next
  case (Cons en entries)
  obtain f p trimfp where en: "en = (f, p, trimfp)" by (cases en)
  show ?case
  proof (cases "tempdir st p")
    case None
    with Cons.prems show ?thesis by (simp add: en)
  next
    case (Some records)
    define st1 where "st1 = pass2_entry ops is_pair st p trimfp records"
    from Cons.prems(1)
    have loop: "pass2_loop ops is_pair (ksize ops) st1 entries = (e, st')"
      unfolding en pass2_loop_Cons Some st1_def by simp
    from pass2_call_skipped [OF Cons.prems(2), of ops is_pair records]
    have st1: "do_trim_low_abund (trimmer st1)"
      "n_skipped (trimmer st1) = n_skipped (trimmer st)"
      "bp_skipped (trimmer st1) = bp_skipped (trimmer st)"
      unfolding st1_def by (simp_all add: pass2_entry_fields)
    from Cons.IH [OF loop st1(1)] st1(2,3) show ?thesis by simp
  qed
qed

lemma pass2_loop_error:
  "fst (pass2_loop ops is_pair K st entries) \<noteq> Some AssertionError"
proof (induction entries arbitrary: st)
  case Nil
  show ?case by simp
next
  case (Cons en entries)
  obtain f p trimfp where en: "en = (f, p, trimfp)" by (cases en)
  show ?case
    using Cons.IH by (simp add: en Let_def split: option.splits prod.splits)
qed

lemma second_pass_cases:
  "second_pass ops is_pair (pass1_files ops is_pair fs ct a files)
     = pass2_loop ops is_pair (ksize ops) (pass1_files ops is_pair fs ct a files)
         (pass2list (pass1_files ops is_pair fs ct a files))"
  using pass1_files_counts [of ops is_pair fs ct a files] by (simp add: second_pass_def)

lemma pass2_loop_recounts:
  "pass2_loop ops is_pair (ksize ops) st entries = (e, st') \<Longrightarrow>
     n_reads (trimmer st') + written_reads st = n_reads (trimmer st) + written_reads st'"
proof (induction entries arbitrary: st)
  case Nil
  then show ?case by simp
next
  case (Cons en entries)
  obtain f p trimfp where en: "en = (f, p, trimfp)" by (cases en)
  show ?case
  proof (cases "tempdir st p")
    case None
    with Cons.prems show ?thesis by (simp add: en)
  next
    case (Some records)
    define st1 where "st1 = pass2_entry ops is_pair st p trimfp records"
    from Cons.prems
    have loop: "pass2_loop ops is_pair (ksize ops) st1 entries = (e, st')"
      unfolding en pass2_loop_Cons Some st1_def by simp
    have "n_reads (trimmer st1) + written_reads st = n_reads (trimmer st) + written_reads st1"
      unfolding st1_def by (simp add: pass2_entry_fields pass2_call_facts)
    with Cons.IH [OF loop] show ?thesis by simp
  qed
qed

lemma second_pass_written:
  fixes ops :: "'g graph_ops" and is_pair fs ct a
  defines "st1 \<equiv> pass1_files ops is_pair fs ct a (input_filenames a)"
  assumes fin: "second_pass ops is_pair st1 = (None, st2)"
  shows "written_reads st2 = written_reads st1 + n_saved (trimmer st1)"
    and "length (written st2) = length (written st1) + n_saved (trimmer st1)"
    and "n_saved (trimmer st2) = n_saved (trimmer st1)"
    and "written_bp st2 = written_bp st1"
    and "n_reads (trimmer st2) = n_reads (trimmer st1) + n_saved (trimmer st1)"
proof -
  define files where "files = input_filenames a"
  have st1: "st1 = pass1_files ops is_pair fs ct a files"
    by (simp add: st1_def files_def)
  from fin have loop: "pass2_loop ops is_pair (ksize ops) st1 (pass2list st1) = (None, st2)"
    unfolding st1 second_pass_cases .
  note spill = pass1_files_spill [of ops is_pair fs ct a files, folded st1]
  from spill have list: "pass2list st1 = map (\<lambda>f. (f, spill_name f, trim_sink a f)) files"
    by simp
  from pass2_loop_done [OF loop]
  have d: "distinct (map spill_name files)"
    and wr: "written_reads st2 = written_reads st1
       + sum_list (map (\<lambda>f. length (filter (\<lambda>rd. ksize ops \<le> length (sequence rd))
                                    (the (tempdir st1 (spill_name f))))) files)"
    unfolding list by (simp_all add: comp_def)
  from spill d have saved: "n_saved (trimmer st1)
        = sum_list (map (\<lambda>f. length (the (tempdir st1 (spill_name f)))) files)"
    and long: "\<forall>f \<in> set files. \<exists>records. tempdir st1 (spill_name f) = Some records
            \<and> (\<forall>rd \<in> set records. ksize ops \<le> length (sequence rd))"
    by simp_all
  have "map (\<lambda>f. length (filter (\<lambda>rd. ksize ops \<le> length (sequence rd))
                                    (the (tempdir st1 (spill_name f))))) files
      = map (\<lambda>f. length (the (tempdir st1 (spill_name f)))) files"
  proof (rule map_cong [OF refl])
    fix f assume "f \<in> set files"
    with long obtain records where "tempdir st1 (spill_name f) = Some records"
      "\<forall>rd \<in> set records. ksize ops \<le> length (sequence rd)" by blast
    then show "length (filter (\<lambda>rd. ksize ops \<le> length (sequence rd))
                                    (the (tempdir st1 (spill_name f))))
        = length (the (tempdir st1 (spill_name f)))"
      by simp
  qed
  with wr saved show a: "written_reads st2 = written_reads st1 + n_saved (trimmer st1)"
    by simp
  from pass2_loop_keeps [OF loop] obtain more where keeps:
    "n_saved (trimmer st2) = n_saved (trimmer st1)"
    "written_bp st2 = written_bp st1"
    "written st2 = written st1 @ more"
    "written_reads st2 = written_reads st1 + length more"
    by blast
  with a show "length (written st2) = length (written st1) + n_saved (trimmer st1)"
    by simp
  show "n_saved (trimmer st2) = n_saved (trimmer st1)" by (rule keeps(1))
  show "written_bp st2 = written_bp st1" by (rule keeps(2))
  from pass2_loop_recounts [OF loop] a
  show "n_reads (trimmer st2) = n_reads (trimmer st1) + n_saved (trimmer st1)" by simp
qed

lemma spill_name_inj: "spill_name f = spill_name g \<longleftrightarrow> basename f = basename g"
  by (simp add: spill_name_def)

lemma pass2_loop_completes:
  "distinct (map (\<lambda>en. fst (snd en)) entries) \<Longrightarrow>
   \<forall>en \<in> set entries. tempdir st (fst (snd en)) \<noteq> None \<Longrightarrow>
     fst (pass2_loop ops is_pair (ksize ops) st entries) = None"
proof (induction entries arbitrary: st)
  case Nil
  show ?case by simp
next
  case (Cons en entries)
  obtain f p trimfp where en: "en = (f, p, trimfp)" by (cases en)
  from Cons.prems(2) obtain records where Some: "tempdir st p = Some records"
    by (auto simp: en)
  define st1 where "st1 = pass2_entry ops is_pair st p trimfp records"
  have step: "pass2_loop ops is_pair (ksize ops) st (en # entries)
      = pass2_loop ops is_pair (ksize ops) st1 entries"
    unfolding en pass2_loop_Cons Some st1_def by simp
  from Cons.prems(1) have d: "distinct (map (\<lambda>en. fst (snd en)) entries)"
    and fresh: "\<forall>x \<in> set entries. fst (snd x) \<noteq> p"
    by (auto simp: en image_iff)
  have "tempdir st1 = (tempdir st)(p := None)"
    unfolding st1_def by (simp add: pass2_entry_fields)
  with Cons.prems(2) fresh have "\<forall>x \<in> set entries. tempdir st1 (fst (snd x)) \<noteq> None"
    by simp
  from Cons.IH [OF d this] show ?case unfolding step .
qed

lemma second_pass_completes:
  assumes "distinct (map basename (input_filenames a))"
  shows "fst (second_pass ops is_pair (first_pass ops is_pair fs ct a)) = None"
proof -
  define files where "files = input_filenames a"
  define st1 where "st1 = pass1_files ops is_pair fs ct a files"
  from assms have d: "distinct (map spill_name files)"
    unfolding files_def distinct_map by (auto simp: inj_on_def spill_name_inj)
  note spill = pass1_files_spill [of ops is_pair fs ct a files, folded st1_def]
  from spill have list: "pass2list st1 = map (\<lambda>f. (f, spill_name f, trim_sink a f)) files"
    by simp
  from spill d have "\<forall>f \<in> set files. tempdir st1 (spill_name f) \<noteq> None"
    by auto
  then have "fst (pass2_loop ops is_pair (ksize ops) st1 (pass2list st1)) = None"
    using d unfolding list by (intro pass2_loop_completes) (simp_all add: comp_def)
  then show ?thesis
    unfolding first_pass_files files_def [symmetric] st1_def [symmetric]
    using second_pass_cases [of ops is_pair fs ct a files, folded st1_def] by simp
qed

section \<open>The duplicate check\<close>

lemma dup_check: "card (set xs) \<noteq> length xs \<longleftrightarrow> \<not> distinct xs"
  using card_distinct distinct_card by blast

section \<open>Deferral\<close>

text \<open>
  C1. For every unit that \<open>Trimmer.__call__\<close> processes, whatever the trimmer's state:
  the unit is deferred (its reads are appended to the saver, \<open>n_saved\<close> grows by the
  number of its reads, nothing is yielded) if and only if a saver is supplied and the
  median count of at least one member's cleaned sequence is strictly below
  \<open>normalize_limit\<close>. Otherwise the unit is not deferred: the saver, \<open>n_saved\<close> and the
  table are as they were, and one read is yielded for each member.
\<close>

theorem deferral_iff:
  assumes "process_unit ops K t saver u = (t', saver', ys)"
  shows "(((\<exists>sv. saver = Some sv \<and> saver' = Some (sv @ reads_of u))
          \<and> n_saved t' = n_saved t + length (reads_of u) \<and> ys = [])
       \<longleftrightarrow>
         (saver \<noteq> None \<and>
          (\<exists>rd \<in> set (reads_of u).
             int (get_median_count ops (graph t) (clean (sequence rd))) < normalize_limit t)))
     \<and> (\<not> (saver \<noteq> None \<and>
          (\<exists>rd \<in> set (reads_of u).
             int (get_median_count ops (graph t) (clean (sequence rd))) < normalize_limit t))
        \<longrightarrow> saver' = saver \<and> n_saved t' = n_saved t \<and> graph t' = graph t
            \<and> length ys = length (reads_of u))"
proof (cases "saver \<noteq> None \<and> low_cov ops t u")
  case True
  then obtain sv where sv: "saver = Some sv" by auto
  show ?thesis
    using True assms unfolding sv by (auto simp: process_unit_save)
next
  case False
  from process_unit_not_saved [OF assms False]
  have keep: "saver' = saver \<and> n_saved t' = n_saved t \<and> graph t' = graph t
      \<and> length ys = length (reads_of u)"
    by simp
  then have "ys \<noteq> []" using length_reads_of [of u] by auto
  with False keep show ?thesis by blast
qed

theorem deferral_iff_witness:
  "process_unit (exact_table 2) 2 (Trimmer [] True 2 20) (Some []) (Single read_acgt)
     = (\<lparr>graph = [''AC'', ''CG'', ''GT''], do_trim_low_abund = True, cutoff = 2,
         normalize_limit = 20, n_reads = 1, n_bp = 4, trimmed_reads = 0, n_saved = 1,
         n_skipped = 0, bp_skipped = 0\<rparr>, Some [read_acgt], [])
   \<and> int (get_median_count (exact_table 2) (graph (Trimmer [] True 2 20))
           (clean (sequence read_acgt))) < normalize_limit (Trimmer [] True 2 20)
   \<and> (\<exists>sv. Some [] = Some sv \<and> Some [read_acgt] = Some (sv @ reads_of (Single read_acgt)))
   \<and> process_unit (exact_table 2) 2 (Trimmer seen_thrice True 2 3) (Some [])
        (Single read_acgttt)
     = (\<lparr>graph = seen_thrice, do_trim_low_abund = True, cutoff = 2, normalize_limit = 3,
         n_reads = 1, n_bp = 6, trimmed_reads = 1, n_saved = 0, n_skipped = 0,
         bp_skipped = 0\<rparr>, Some [],
        [\<lparr>name = ''r2'', sequence = ''ACG'', quality = Some ''III''\<rparr>])
   \<and> \<not> int (get_median_count (exact_table 2) (graph (Trimmer seen_thrice True 2 3))
             (clean (sequence read_acgttt))) < normalize_limit (Trimmer seen_thrice True 2 3)
   \<and> length [\<lparr>name = ''r2'', sequence = ''ACG'', quality = Some ''III''\<rparr>]
       = length (reads_of (Single read_acgttt))"
proof -
  have run: "process_unit (exact_table 2) 2 (Trimmer [] True 2 20) (Some []) (Single read_acgt)
     = (\<lparr>graph = [''AC'', ''CG'', ''GT''], do_trim_low_abund = True, cutoff = 2,
         normalize_limit = 20, n_reads = 1, n_bp = 4, trimmed_reads = 0, n_saved = 1,
         n_skipped = 0, bp_skipped = 0\<rparr>, Some [read_acgt], [])"
    by code_simp
  have low: "int (get_median_count (exact_table 2) (graph (Trimmer [] True 2 20))
           (clean (sequence read_acgt))) < normalize_limit (Trimmer [] True 2 20)"
    by code_simp
  from deferral_iff [OF run] low
  have saved: "\<exists>sv. Some [] = Some sv
      \<and> Some [read_acgt] = Some (sv @ reads_of (Single read_acgt))"
    by fastforce
  have run2: "process_unit (exact_table 2) 2 (Trimmer seen_thrice True 2 3) (Some [])
        (Single read_acgttt)
     = (\<lparr>graph = seen_thrice, do_trim_low_abund = True, cutoff = 2, normalize_limit = 3,
         n_reads = 1, n_bp = 6, trimmed_reads = 1, n_saved = 0, n_skipped = 0,
         bp_skipped = 0\<rparr>, Some [],
        [\<lparr>name = ''r2'', sequence = ''ACG'', quality = Some ''III''\<rparr>])"
    by code_simp
  have high: "\<not> int (get_median_count (exact_table 2) (graph (Trimmer seen_thrice True 2 3))
             (clean (sequence read_acgttt))) < normalize_limit (Trimmer seen_thrice True 2 3)"
    by code_simp
  then have nc: "\<not> (Some ([]::read list) \<noteq> None \<and>
          (\<exists>rd \<in> set (reads_of (Single read_acgttt)).
             int (get_median_count (exact_table 2) (graph (Trimmer seen_thrice True 2 3))
                   (clean (sequence rd))) < normalize_limit (Trimmer seen_thrice True 2 3)))"
    by simp
  from deferral_iff [OF run2] nc
  have kept: "length [\<lparr>name = ''r2'', sequence = ''ACG'', quality = Some ''III''\<rparr>]
       = length (reads_of (Single read_acgttt))"
    by blast
  from run low saved run2 high kept show ?thesis by blast
qed

section \<open>The trim floor\<close>



section \<open>Conservation of reads\<close>

text \<open>
  C3. The claim is that the reads deferred in the first pass are the reads resolved in
  the second. At the end of the first pass \<open>n_reads\<close> is the number of reads written plus
  \<open>n_saved\<close> (\<open>pass1_files_counts\<close>), and a second pass that runs to its end writes
  \<open>n_saved\<close> reads (\<open>second_pass_written\<close>), which it does when the base names of the
  input files are distinct (\<open>second_pass_completes\<close>). But the duplicate check compares
  the file names, and the spill file of an input file is named by its base name. For the
  two input files \<open>a.fa\<close> and \<open>d/a.fa\<close>, each holding one read, the check passes, the
  spill file of the second replaces that of the first, and the first pass ends with
  \<open>n_saved = 2\<close>; the second pass writes one read, removes the spill file, and stops
  with an I/O error when it opens the same file for the second entry.
\<close>

theorem spill_files_collide:
  "distinct (input_filenames args_same_base)
   \<and> n_reads (trimmer (first_pass (exact_table 4) no_pairs one_read_file [] args_same_base)) = 2
   \<and> written_reads (first_pass (exact_table 4) no_pairs one_read_file [] args_same_base) = 0
   \<and> n_saved (trimmer (first_pass (exact_table 4) no_pairs one_read_file [] args_same_base)) = 2
   \<and> fst (second_pass (exact_table 4) no_pairs
            (first_pass (exact_table 4) no_pairs one_read_file [] args_same_base))
       = Some IOError
   \<and> written_reads (snd (second_pass (exact_table 4) no_pairs
            (first_pass (exact_table 4) no_pairs one_read_file [] args_same_base))) = 1
   \<and> (case snd (main (exact_table 4) no_pairs one_read_file [] args_same_base) of
         Inl e \<Rightarrow> e = IOError
       | Inr st \<Rightarrow> False)"
  by code_simp

section \<open>Reads and bases seen\<close>

text \<open>
  C4. The claim is that every read is counted in \<open>n_reads\<close> and \<open>n_bp\<close> once over the two
  passes. The second pass runs the same \<open>Trimmer\<close> over the spill file, and the loop that
  counts does not know the pass: a deferred read is counted again. For one input file
  holding one read of 16 bases, with \<open>K = 4\<close>, cutoff 2 and limit 20, the run ends with
  \<open>n_reads = 2\<close> and \<open>n_bp = 32\<close>, and one read written. In every run that completes,
  \<open>n_reads\<close> ends as its value after the first pass plus \<open>n_saved\<close>
  (\<open>second_pass_written\<close>).
\<close>

theorem reads_counted_twice:
  "case snd (main (exact_table 4) no_pairs one_read_file [] args_a) of
     Inl e \<Rightarrow> False
   | Inr st \<Rightarrow> n_reads (trimmer st) = 2 \<and> n_bp (trimmer st) = 32
       \<and> written_reads st = 1 \<and> map snd (written st) = [read_a]"
  by code_simp

section \<open>Mutation of the counting table\<close>

text \<open>
  C5. One loop iteration changes the table only when it defers the unit (a saver is
  there and the unit is low-coverage), and then by \<open>consume\<close> of the unit's cleaned
  sequences in order; otherwise the table is as before. A call without a saver, as in
  the second pass, leaves the table as it was. Over the two passes the table is the
  initial one after \<open>consume\<close> of the cleaned sequences of a subsequence of the input
  records, in input order: each record is consumed at most once.
\<close>

theorem oracle_mutation:
  "graph (fst (process_unit ops K t saver u))
     = (if saver \<noteq> None \<and> (\<exists>rd \<in> set (reads_of u).
             int (get_median_count ops (graph t) (clean (sequence rd))) < normalize_limit t)
        then foldl (consume ops) (graph t) (map (\<lambda>rd. clean (sequence rd)) (reads_of u))
        else graph t)
   \<and> graph (fst (trimmer_call ops t units None)) = graph t
   \<and> (\<exists>consumed. subseq consumed (concat (map fs (input_filenames a)))
        \<and> graph (trimmer (snd (second_pass ops is_pair (first_pass ops is_pair fs ct a))))
            = foldl (consume ops) ct (map (\<lambda>rd. clean (sequence rd)) consumed))"
proof (intro conjI)
  show "graph (fst (process_unit ops K t saver u))
     = (if saver \<noteq> None \<and> low_cov ops t u
        then foldl (consume ops) (graph t) (map (\<lambda>rd. clean (sequence rd)) (reads_of u))
        else graph t)"
  proof (cases "saver \<noteq> None \<and> low_cov ops t u")
    case True
    then obtain sv where "saver = Some sv" by auto
    with True show ?thesis by (simp add: process_unit_save)
  next
    case False
    obtain t' saver' ys where run: "process_unit ops K t saver u = (t', saver', ys)"
      by (cases "process_unit ops K t saver u")
    from process_unit_not_saved [OF run False] False run show ?thesis by auto
  qed
next
  obtain t' saver' ys where run: "process ops (ksize ops) t None units = (t', saver', ys)"
    by (cases "process ops (ksize ops) t None units")
  from process_spill [OF run] show "graph (fst (trimmer_call ops t units None)) = graph t"
    by (auto simp: trimmer_call_def run)
next
  define st1 where "st1 = pass1_files ops is_pair fs ct a (input_filenames a)"
  obtain e st2 where res: "pass2_loop ops is_pair (ksize ops) st1 (pass2list st1) = (e, st2)"
    by (cases "pass2_loop ops is_pair (ksize ops) st1 (pass2list st1)")
  from pass2_loop_keeps [OF res] have "graph (trimmer st2) = graph (trimmer st1)" by simp
  then have "graph (trimmer (snd (second_pass ops is_pair (first_pass ops is_pair fs ct a))))
      = graph (trimmer st1)"
    unfolding first_pass_files st1_def [symmetric]
    using second_pass_cases [of ops is_pair fs ct a "input_filenames a", folded st1_def] res
    by simp
  with pass1_files_graph [of fs "input_filenames a" ops is_pair ct a, folded st1_def]
  show "\<exists>consumed. subseq consumed (concat (map fs (input_filenames a)))
        \<and> graph (trimmer (snd (second_pass ops is_pair (first_pass ops is_pair fs ct a))))
            = foldl (consume ops) ct (map (\<lambda>rd. clean (sequence rd)) consumed)"
    by simp
qed

section \<open>The skip branch\<close>

text \<open>
  C6. A low-coverage unit processed with no saver while \<open>do_trim_low_abund\<close> is false:
  each member is yielded unchanged, \<open>n_skipped\<close> grows by one for each read and
  \<open>bp_skipped\<close> by the bases of each read, the table is not changed, nothing is saved
  (the unit is not deferred) and no read is counted as trimmed.
\<close>

theorem skip_branch:
  assumes "\<not> do_trim_low_abund t"
    and "\<exists>rd \<in> set (reads_of u).
           int (get_median_count ops (graph t) (clean (sequence rd))) < normalize_limit t"
    and "process_unit ops K t None u = (t', saver', ys)"
  shows "ys = reads_of u
     \<and> n_skipped t' = n_skipped t + length (reads_of u)
     \<and> bp_skipped t' = bp_skipped t + sum_list (map len_read (reads_of u))
     \<and> graph t' = graph t \<and> saver' = None
     \<and> n_saved t' = n_saved t \<and> trimmed_reads t' = trimmed_reads t"
  using assms(3) unfolding process_unit_skip [OF assms(2) assms(1)] by auto

theorem skip_branch_witness:
  "\<not> do_trim_low_abund (Trimmer [] False 2 20)
   \<and> (\<exists>rd \<in> set (reads_of (Single read_acgt)).
         int (get_median_count (exact_table 2) (graph (Trimmer [] False 2 20))
               (clean (sequence rd))) < normalize_limit (Trimmer [] False 2 20))
   \<and> process_unit (exact_table 2) 2 (Trimmer [] False 2 20) None (Single read_acgt)
       = (\<lparr>graph = [], do_trim_low_abund = False, cutoff = 2, normalize_limit = 20,
           n_reads = 1, n_bp = 4, trimmed_reads = 0, n_saved = 0, n_skipped = 1,
           bp_skipped = 4\<rparr>, None, [read_acgt])
   \<and> [read_acgt] = reads_of (Single read_acgt)"
proof -
  have a: "\<not> do_trim_low_abund (Trimmer [] False 2 20)"
    by (simp add: Trimmer_def)
  have b: "\<exists>rd \<in> set (reads_of (Single read_acgt)).
         int (get_median_count (exact_table 2) (graph (Trimmer [] False 2 20))
               (clean (sequence rd))) < normalize_limit (Trimmer [] False 2 20)"
    by code_simp
  have c: "process_unit (exact_table 2) 2 (Trimmer [] False 2 20) None (Single read_acgt)
       = (\<lparr>graph = [], do_trim_low_abund = False, cutoff = 2, normalize_limit = 20,
           n_reads = 1, n_bp = 4, trimmed_reads = 0, n_saved = 0, n_skipped = 1,
           bp_skipped = 4\<rparr>, None, [read_acgt])"
    by code_simp
  from skip_branch [OF a b c] a b c show ?thesis by blast
qed

section \<open>The assertions between the passes\<close>

text \<open>
  C7. When variable-coverage mode is off, \<open>n_skipped\<close> and \<open>bp_skipped\<close> are zero when the
  second pass begins, so its two assertions hold; the skip branch is not reachable in
  that mode, and the counters are still zero when the second pass ends.
\<close>

theorem no_skips_without_variable_coverage:
  assumes "\<not> variable_coverage a"
  shows "n_skipped (trimmer (first_pass ops is_pair fs ct a)) = 0
     \<and> bp_skipped (trimmer (first_pass ops is_pair fs ct a)) = 0
     \<and> fst (second_pass ops is_pair (first_pass ops is_pair fs ct a)) \<noteq> Some AssertionError
     \<and> n_skipped (trimmer (snd (second_pass ops is_pair (first_pass ops is_pair fs ct a)))) = 0
     \<and> bp_skipped (trimmer (snd (second_pass ops is_pair (first_pass ops is_pair fs ct a)))) = 0"
proof -
  define st1 where "st1 = pass1_files ops is_pair fs ct a (input_filenames a)"
  have trim: "do_trim_low_abund (trimmer st1)"
    using assms by (simp add: st1_def pass1_files_config)
  have zero: "n_skipped (trimmer st1) = 0" "bp_skipped (trimmer st1) = 0"
    using pass1_files_counts [of ops is_pair fs ct a "input_filenames a"]
    by (simp_all add: st1_def)
  have loop: "second_pass ops is_pair st1
      = pass2_loop ops is_pair (ksize ops) st1 (pass2list st1)"
    unfolding st1_def by (rule second_pass_cases)
  obtain e st2 where res: "pass2_loop ops is_pair (ksize ops) st1 (pass2list st1) = (e, st2)"
    by (cases "pass2_loop ops is_pair (ksize ops) st1 (pass2list st1)")
  from pass2_loop_skipped [OF res trim] zero
  have "n_skipped (trimmer st2) = 0" "bp_skipped (trimmer st2) = 0" by simp_all
  moreover have "e \<noteq> Some AssertionError"
    using pass2_loop_error [of ops is_pair "ksize ops" st1 "pass2list st1"] res by simp
  ultimately show ?thesis
    using zero unfolding first_pass_files st1_def [symmetric] loop res by simp
qed

theorem no_skips_without_variable_coverage_witness:
  "\<not> variable_coverage args_a
   \<and> n_skipped (trimmer (first_pass (exact_table 4) no_pairs one_read_file [] args_a)) = 0
   \<and> fst (second_pass (exact_table 4) no_pairs
            (first_pass (exact_table 4) no_pairs one_read_file [] args_a)) = None"
proof -
  have h: "\<not> variable_coverage args_a" by (simp add: args_a_def)
  have ok: "fst (second_pass (exact_table 4) no_pairs
            (first_pass (exact_table 4) no_pairs one_read_file [] args_a)) = None"
    by code_simp
  from no_skips_without_variable_coverage [OF h, of "exact_table 4" no_pairs one_read_file "[]"] h ok
  show ?thesis by simp
qed

section \<open>Bases written\<close>

text \<open>
  C8. The claim is that the percentage of bases removed is computed from the bases of all
  reads written in both passes. The loop of the second pass writes the read and counts
  it in \<open>written_reads\<close>, but does not add its length to \<open>written_bp\<close>, as the loop of the
  first pass does. For the input of C4 the one read is written whole in the second pass,
  16 bases, while \<open>written_bp\<close> stays 0 and the report says 100 percent of the bases were
  removed. In every run, \<open>written_bp\<close> after the second pass is what it was after the
  first (\<open>second_pass_written\<close>).
\<close>

theorem pass2_bases_not_counted:
  "case snd (main (exact_table 4) no_pairs one_read_file [] args_a) of
     Inl e \<Rightarrow> False
   | Inr st \<Rightarrow> written_bp st = 0
       \<and> sum_list (map (\<lambda>w. len_read (snd w)) (written st)) = 16
       \<and> n_bp (trimmer st) = 32
       \<and> percent_bases_removed st = 100"
  by code_simp

section \<open>Duplicate input file names\<close>

text \<open>
  C9. When the list of input file names has a duplicate, the run ends with
  exit status 1 before it looks at an input file, makes the temporary directory, a spill
  file or the \<open>.abundtrim\<close> file of an input; the only file opened by then is the one
  named by \<open>-o\<close>, if that option is given and is not \<open>-\<close>, which the argument parser opens
  for writing.
\<close>

theorem duplicate_rejected:
  assumes "\<not> distinct (input_filenames a)"
  shows "snd (main ops is_pair fs ct a) = Inl (SystemExit 1)
     \<and> fst (main ops is_pair fs ct a)
         = (case out a of None \<Rightarrow> [] | Some f \<Rightarrow> if f = ''-'' then [] else [Create_output f])"
proof -
  from assms have "input_filenames a \<noteq> []" by auto
  with assms show ?thesis
    by (simp add: main_def dup_check parse_args_events_def)
qed

theorem duplicate_rejected_witness:
  "\<not> distinct (input_filenames args_dup)
   \<and> main (exact_table 4) no_pairs one_read_file [] args_dup = ([], Inl (SystemExit 1))"
proof -
  have d: "\<not> distinct (input_filenames args_dup)" by (simp add: args_dup_def)
  from duplicate_rejected [OF d, of "exact_table 4" no_pairs one_read_file "[]"]
  have "main (exact_table 4) no_pairs one_read_file [] args_dup = ([], Inl (SystemExit 1))"
    by (simp add: prod_eq_iff args_dup_def)
  with d show ?thesis by blast
qed

text \<open>
  The claim as stated, that no output file is created before the rejection, fails when
  \<open>-o trimmed.fa\<close> is given together with the file name \<open>a.fa\<close> twice.
\<close>

theorem duplicate_output_opened:
  "\<not> distinct (input_filenames args_dup_out)
   \<and> main (exact_table 4) no_pairs one_read_file [] args_dup_out
       = ([Create_output ''trimmed.fa''], Inl (SystemExit 1))"
  by (simp add: main_def args_dup_out_def parse_args_events_def)

section \<open>The first pass always has a saver\<close>

text \<open>
  C10. A call of the trimmer with a saver never changes \<open>n_skipped\<close> and \<open>bp_skipped\<close>.
  The first pass passes a saver for every input file, so in every mode the counters are
  zero when the second pass begins, its assertions hold, and \<open>main\<close> never ends with an
  assertion error.
\<close>

theorem pass1_never_skips:
  "n_skipped (fst (trimmer_call ops t units (Some sv))) = n_skipped t
   \<and> bp_skipped (fst (trimmer_call ops t units (Some sv))) = bp_skipped t
   \<and> n_skipped (trimmer (first_pass ops is_pair fs ct a)) = 0
   \<and> bp_skipped (trimmer (first_pass ops is_pair fs ct a)) = 0
   \<and> fst (second_pass ops is_pair (first_pass ops is_pair fs ct a)) \<noteq> Some AssertionError
   \<and> snd (main ops is_pair fs ct a) \<noteq> Inl AssertionError"
proof -
  obtain t' saver' ys where run: "process ops (ksize ops) t (Some sv) units = (t', saver', ys)"
    by (cases "process ops (ksize ops) t (Some sv) units")
  from process_skipped [OF run]
  have call: "n_skipped (fst (trimmer_call ops t units (Some sv))) = n_skipped t
     \<and> bp_skipped (fst (trimmer_call ops t units (Some sv))) = bp_skipped t"
    by (simp add: trimmer_call_def run)
  define st1 where "st1 = pass1_files ops is_pair fs ct a (input_filenames a)"
  have zero: "n_skipped (trimmer st1) = 0" "bp_skipped (trimmer st1) = 0"
    using pass1_files_counts [of ops is_pair fs ct a "input_filenames a"]
    by (simp_all add: st1_def)
  have loop: "second_pass ops is_pair st1
      = pass2_loop ops is_pair (ksize ops) st1 (pass2list st1)"
    unfolding st1_def by (rule second_pass_cases)
  have no_assert: "fst (second_pass ops is_pair st1) \<noteq> Some AssertionError"
    unfolding loop by (rule pass2_loop_error)
  have "snd (main ops is_pair fs ct a) \<noteq> Inl AssertionError"
    using no_assert unfolding main_def first_pass_files st1_def [symmetric]
    by (auto simp: Let_def split: prod.splits option.splits)
  with call zero no_assert show ?thesis
    unfolding first_pass_files st1_def [symmetric] by simp
qed

end
